theory Spec2Isabelle
  imports Main "HOL-Library.Word"
begin

section \<open>Values\<close>

text \<open>
  The component works on what \<^verbatim>\<open>client.fetch\<close> returns: JSON trees, typed \<^verbatim>\<open>any\<close> in
  the source. \<open>JUndefined\<close> is JavaScript's \<^verbatim>\<open>undefined\<close>, the value of reading a
  property an object does not have; it never stands inside a fetched document.
  An object is the list of its own properties in the order \<^verbatim>\<open>Object.keys\<close> gives them
  (keys of a JavaScript object are distinct). Numbers are the integers from \<open>-2^53\<close> to
  \<open>2^53 - 1\<close>, as 54-bit signed words: a double holds each of them exactly and a template
  literal prints all its digits (exponent form only starts at \<open>10^21\<close>). The code only asks
  whether a number is zero, and prints it.
\<close>

datatype json =
    JUndefined
  | JNull
  | JBool bool
  | JNum "54 word"
  | JStr string
  | JArr "json list"
  | JObj "(string \<times> json) list"

text \<open>JavaScript's ToBoolean, as \<^verbatim>\<open>!obj\<close>, \<^verbatim>\<open>value && ...\<close> and \<^verbatim>\<open>a || b\<close> use it.\<close>

fun truthy :: "json \<Rightarrow> bool" where
  "truthy JUndefined = False"
| "truthy JNull = False"
| "truthy (JBool b) = b"
| "truthy (JNum n) = (n \<noteq> 0)"
| "truthy (JStr s) = (s \<noteq> [])"
| "truthy (JArr xs) = True"
| "truthy (JObj fs) = True"

text \<open>\<^verbatim>\<open>typeof v === 'object'\<close>: true of objects, arrays and \<^verbatim>\<open>null\<close>.\<close>

fun typeofObject :: "json \<Rightarrow> bool" where
  "typeofObject JNull = True"
| "typeofObject (JArr xs) = True"
| "typeofObject (JObj fs) = True"
| "typeofObject v = False"

text \<open>
  \<^verbatim>\<open>v.k\<close> for the keys the source reads (\<^verbatim>\<open>_type\<close>, \<^verbatim>\<open>_ref\<close>, \<^verbatim>\<open>_weak\<close>, \<^verbatim>\<open>_id\<close>) on a value that
  is neither \<^verbatim>\<open>null\<close> nor \<^verbatim>\<open>undefined\<close>: an array, a string, a number or a boolean has
  no such property.
\<close>

fun getProp :: "json \<Rightarrow> string \<Rightarrow> json" where
  "getProp (JObj fs) k = (case map_of fs k of None \<Rightarrow> JUndefined | Some v \<Rightarrow> v)"
| "getProp v k = JUndefined"

text \<open>\<^verbatim>\<open>a || b\<close>\<close>

definition jsOr :: "json \<Rightarrow> json \<Rightarrow> json" where
  "jsOr a b = (if truthy a then a else b)"

text \<open>A non-negative integer in a template literal: its decimal digits.\<close>

definition digitChar :: "nat \<Rightarrow> char" where
  "digitChar d = ''0123456789'' ! d"

fun showNat :: "nat \<Rightarrow> string" where
  "showNat n = (if n < 10 then [digitChar n] else showNat (n div 10) @ [digitChar (n mod 10)])"

declare showNat.simps [simp del]

section \<open>The reference finder\<close>

datatype mode = StrongToWeak | WeakToStrong

datatype refKind = Strong | Weak

text \<open>An element of the array \<^verbatim>\<open>findReferences\<close> returns: \<^verbatim>\<open>{path, type, ref, weak}\<close>.\<close>

record occurrence =
  path :: string
  type :: refKind
  ref :: json
  weak :: json

text \<open>
  \<^verbatim>\<open>findReferences(obj, type, path = '')\<close>. \<open>forEachItem\<close> is the \<^verbatim>\<open>obj.forEach\<close> over an
  array from the given index on, \<open>forEachKey\<close> the \<^verbatim>\<open>Object.keys(obj).forEach\<close> over the
  properties that are left. The parameters \<^verbatim>\<open>type\<close> and \<^verbatim>\<open>path\<close> are \<open>ctype\<close> and \<open>pfx\<close>
  here, since \<open>type\<close> and \<open>path\<close> name the fields of an occurrence.
\<close>

fun findReferences :: "json \<Rightarrow> mode \<Rightarrow> string \<Rightarrow> occurrence list"
  and forEachItem :: "json list \<Rightarrow> nat \<Rightarrow> mode \<Rightarrow> string \<Rightarrow> occurrence list"
  and forEachKey :: "(string \<times> json) list \<Rightarrow> mode \<Rightarrow> string \<Rightarrow> occurrence list"
where
  "findReferences (JArr xs) ctype pfx = forEachItem xs 0 ctype pfx"
| "findReferences (JObj fs) ctype pfx = forEachKey fs ctype pfx"
| "findReferences JUndefined ctype pfx = []"
| "findReferences JNull ctype pfx = []"
| "findReferences (JBool b) ctype pfx = []"
| "findReferences (JNum n) ctype pfx = []"
| "findReferences (JStr s) ctype pfx = []"
| "forEachItem [] index ctype pfx = []"
| "forEachItem (item # items) index ctype pfx =
     findReferences item ctype (pfx @ ''['' @ showNat index @ '']'')
     @ forEachItem items (Suc index) ctype pfx"
| "forEachKey [] ctype pfx = []"
| "forEachKey ((key, val) # rest) ctype pfx =
     (let currentPath = (if pfx \<noteq> [] then pfx @ ''.'' @ key else key) in
      (if truthy val \<and> typeofObject val then
         (if ctype = StrongToWeak \<and> getProp val ''_type'' = JStr ''reference''
             \<and> truthy (getProp val ''_ref'')
          then [\<lparr>path = currentPath, type = Strong, ref = getProp val ''_ref'',
                 weak = jsOr (getProp val ''_weak'') (JBool False)\<rparr>]
          else if ctype = WeakToStrong \<and> getProp val ''_type'' = JStr ''reference''
             \<and> truthy (getProp val ''_ref'') \<and> truthy (getProp val ''_weak'')
          then [\<lparr>path = currentPath, type = Weak, ref = getProp val ''_ref'',
                 weak = JBool True\<rparr>]
          else findReferences val ctype currentPath)
       else [])
      @ forEachKey rest ctype pfx)"

text \<open>
  A reference descriptor, as the finder tests for one: the type tag is the string
  \<^verbatim>\<open>reference\<close> and \<^verbatim>\<open>_ref\<close> is truthy. Only an object can be one.
\<close>

definition isReference :: "json \<Rightarrow> bool" where
  "isReference v = (getProp v ''_type'' = JStr ''reference'' \<and> truthy (getProp v ''_ref''))"

text \<open>The weak marker: \<^verbatim>\<open>_weak\<close> is truthy.\<close>

definition markedWeak :: "json \<Rightarrow> bool" where
  "markedWeak v = truthy (getProp v ''_weak'')"

text \<open>What makes the finder emit an occurrence for a property value in a mode.\<close>

definition emitted :: "mode \<Rightarrow> json \<Rightarrow> bool" where
  "emitted ctype v =
     (case ctype of StrongToWeak \<Rightarrow> isReference v
                  | WeakToStrong \<Rightarrow> isReference v \<and> markedWeak v)"

section \<open>Template literals\<close>

text \<open>
  A value in a template literal is converted by ToString: an array joins its elements
  with commas (\<^verbatim>\<open>null\<close> and \<^verbatim>\<open>undefined\<close> as the empty string), an object is
  \<^verbatim>\<open>[object Object]\<close>.
\<close>

definition showNumber :: "54 word \<Rightarrow> string" where
  "showNumber n =
     (if sint n < 0 then ''-'' @ showNat (nat (- sint n)) else showNat (nat (sint n)))"

fun toStr :: "json \<Rightarrow> string"
  and joinItems :: "json list \<Rightarrow> string"
where
  "toStr JUndefined = ''undefined''"
| "toStr JNull = ''null''"
| "toStr (JBool b) = (if b then ''true'' else ''false'')"
| "toStr (JNum n) = showNumber n"
| "toStr (JStr s) = s"
| "toStr (JArr xs) = joinItems xs"
| "toStr (JObj fs) = ''[object Object]''"
| "joinItems [] = ''''"
| "joinItems (x # xs) =
     (if x = JNull \<or> x = JUndefined then '''' else toStr x)
     @ (if xs = [] then '''' else '','' @ joinItems xs)"

section \<open>The component's effects\<close>

text \<open>An element of \<^verbatim>\<open>strongRefs\<close>, as \<^verbatim>\<open>scanForReferences\<close> pushes it.\<close>

record group =
  document :: json
  references :: "occurrence list"
  refCount :: nat

record ConversionResult =
  converted :: nat
  errors :: "string list"
  spaceSaved :: nat

text \<open>
  What a \<^verbatim>\<open>catch\<close> receives: an \<^verbatim>\<open>Error\<close> with its message, or any other value.
  \<open>errorMessage e fallback\<close> is \<^verbatim>\<open>error instanceof Error ? error.message : fallback\<close>.
\<close>

datatype thrown = ErrorObject string | NonError

definition errorMessage :: "thrown \<Rightarrow> string \<Rightarrow> string" where
  "errorMessage e fallback = (case e of ErrorObject m \<Rightarrow> m | NonError \<Rightarrow> fallback)"

text \<open>A patch \<^verbatim>\<open>{path, value}\<close>, later one \<^verbatim>\<open>set({[path]: value})\<close> on the patch builder.\<close>

type_synonym patch = "string \<times> json"

text \<open>
  Everything the two callbacks do to the outside, in the order they do it: the state
  setters, the calls on the client and the hooks \<^verbatim>\<open>onComplete\<close> and \<^verbatim>\<open>onError\<close>.
  \<open>Commit docId patches\<close> is one chain
  \<^verbatim>\<open>client.patch(docId).set(...) ... .set(...).commit()\<close>.
\<close>

datatype event =
    SetIsScanning bool
  | SetIsLoading bool
  | SetMessage string
  | SetDocuments "json list"
  | SetStrongRefs "group list"
  | Fetch string
  | Commit json "patch list"
  | OnComplete ConversionResult
  | OnError string

text \<open>
  The client is the document store, outside this repository: \<open>fetch\<close> answers a query
  with documents or throws, \<open>commit\<close> answers a patch chain by succeeding or throwing
  and may change the store \<open>'s\<close>.
\<close>

record 's client =
  fetch :: "'s \<Rightarrow> string \<Rightarrow> thrown + json list"
  commit :: "'s \<Rightarrow> json \<Rightarrow> patch list \<Rightarrow> thrown option \<times> 's"

section \<open>Scanning\<close>

definition dquote :: string where
  "dquote = [CHR 0x22]"

definition buildQuery :: "bool \<Rightarrow> string \<Rightarrow> string \<Rightarrow> string \<Rightarrow> 54 word \<Rightarrow> string" where
  "buildQuery useCustomQuery customGroqQuery selectedType searchQuery maxDocuments =
     (if useCustomQuery \<and> customGroqQuery \<noteq> [] then customGroqQuery
      else
        (let typeFilter =
               (if selectedType \<noteq> [] then ''_type == '' @ dquote @ selectedType @ dquote
                else ''defined(_type)'');
             searchFilter =
               (if searchQuery \<noteq> []
                then '' && (title match '' @ dquote @ ''*'' @ searchQuery @ ''*'' @ dquote
                     @ '' || name match '' @ dquote @ ''*'' @ searchQuery @ ''*'' @ dquote
                     @ '')''
                else '''')
         in ''*['' @ typeFilter @ searchFilter @ ''][0...'' @ showNumber maxDocuments @ '']''))"

text \<open>The loop \<^verbatim>\<open>for (const doc of docs)\<close> that fills \<^verbatim>\<open>refsToConvert\<close>.\<close>

fun analyze :: "json list \<Rightarrow> mode \<Rightarrow> group list" where
  "analyze [] conversionType = []"
| "analyze (doc # docs) conversionType =
     (let refs = findReferences doc conversionType '''' in
      (if length refs > 0
       then [\<lparr>document = doc, references = refs, refCount = length refs\<rparr>]
       else [])
      @ analyze docs conversionType)"

definition scanForReferences ::
  "'s client option \<Rightarrow> bool \<Rightarrow> string \<Rightarrow> string \<Rightarrow> string \<Rightarrow> 54 word \<Rightarrow> mode \<Rightarrow> 's
     \<Rightarrow> event list" where
  "scanForReferences cl useCustomQuery customGroqQuery selectedType searchQuery maxDocuments
       conversionType s =
     (case cl of
        None \<Rightarrow> []
      | Some c \<Rightarrow>
          [SetIsScanning True, SetMessage ''Scanning for documents with references...'']
          @ (let query = buildQuery useCustomQuery customGroqQuery selectedType searchQuery
                           maxDocuments
             in case fetch c s query of
                  Inr docs \<Rightarrow>
                    (let refsToConvert = analyze docs conversionType in
                     [Fetch query, SetDocuments docs, SetStrongRefs refsToConvert,
                      SetMessage (''Found '' @ showNat (length refsToConvert)
                        @ '' documents with ''
                        @ (if conversionType = StrongToWeak then ''strong'' else ''weak'')
                        @ '' references to convert'')])
                | Inl e \<Rightarrow>
                    [Fetch query,
                     SetMessage (''Scan error: '' @ errorMessage e ''Scan failed''),
                     OnError (errorMessage e ''Scan failed'')])
          @ [SetIsScanning False])"

section \<open>Converting\<close>

text \<open>
  The running values of \<^verbatim>\<open>convertReferences\<close>: the three counters that become the
  result, the store behind the client, and the effects so far.
\<close>

record 's run =
  result :: ConversionResult
  store :: 's
  trace :: "event list"

text \<open>
  \<^verbatim>\<open>xs.slice(start, end)\<close> for integer arguments: a negative argument counts from the
  end of the array.
\<close>

definition slice :: "'a list \<Rightarrow> int \<Rightarrow> int \<Rightarrow> 'a list" where
  "slice xs start fin =
     (let len = int (length xs);
          k = (if start < 0 then max (len + start) 0 else min start len);
          final = (if fin < 0 then max (len + fin) 0 else min fin len)
      in take (nat (final - k)) (drop (nat k) xs))"

text \<open>
  Reading \<^verbatim>\<open>_id\<close> of \<^verbatim>\<open>null\<close> or \<^verbatim>\<open>undefined\<close> throws a TypeError; the text is V8's.
\<close>

definition nullish :: "json \<Rightarrow> bool" where
  "nullish v = (v = JNull \<or> v = JUndefined)"

definition nullReadMessage :: "json \<Rightarrow> string" where
  "nullReadMessage v =
     ''Cannot read properties of '' @ toStr v @ '' (reading '' @ [CHR 0x27] @ ''_id''
       @ [CHR 0x27] @ '')''"

text \<open>The patches of one document, one per reference (\<^verbatim>\<open>references.forEach\<close>).\<close>

definition buildPatches :: "mode \<Rightarrow> occurrence list \<Rightarrow> patch list" where
  "buildPatches conversionType refs =
     map (\<lambda>r. if conversionType = StrongToWeak
               then (path r, JObj [(''_type'', JStr ''reference''), (''_ref'', ref r),
                                   (''_weak'', JBool True)])
               else (path r, JObj [(''_type'', JStr ''reference''), (''_ref'', ref r)]))
         refs"

text \<open>\<^verbatim>\<open>converted++\<close> and the space estimate, after the \<^verbatim>\<open>if (!dryRun)\<close> block.\<close>

definition countConverted :: "mode \<Rightarrow> group \<Rightarrow> ConversionResult \<Rightarrow> ConversionResult" where
  "countConverted conversionType item res =
     res\<lparr>converted := converted res + 1,
         spaceSaved := (if conversionType = StrongToWeak
                        then spaceSaved res + length (references item) * 20
                        else spaceSaved res)\<rparr>"

definition failureMessage :: "group \<Rightarrow> thrown \<Rightarrow> string" where
  "failureMessage item e =
     ''Failed to convert '' @ toStr (getProp (document item) ''_id'') @ '': ''
       @ errorMessage e ''Conversion failed''"

text \<open>
  The body of \<^verbatim>\<open>for (const item of batch)\<close>: the inner \<^verbatim>\<open>try\<close> and its \<^verbatim>\<open>catch\<close>.
  \<open>Inl\<close> is an exception that leaves the inner \<^verbatim>\<open>catch\<close>: on a \<^verbatim>\<open>null\<close> document
  \<^verbatim>\<open>doc._id\<close> throws in the \<^verbatim>\<open>try\<close>, and \<^verbatim>\<open>item.document._id\<close> throws again in the
  \<^verbatim>\<open>catch\<close>.
\<close>

definition processItem ::
  "'s client \<Rightarrow> bool \<Rightarrow> mode \<Rightarrow> group \<Rightarrow> 's run \<Rightarrow> (thrown \<times> 's run) + 's run" where
  "processItem c dryRun conversionType item st =
     (if \<not> dryRun then
        (if nullish (document item)
         then Inl (ErrorObject (nullReadMessage (document item)), st)
         else
           (let docId = getProp (document item) ''_id'';
                patches = buildPatches conversionType (references item);
                (outcome, s') = commit c (store st) docId patches;
                st' = st\<lparr>store := s', trace := trace st @ [Commit docId patches]\<rparr>
            in case outcome of
                 None \<Rightarrow> Inr (st'\<lparr>result := countConverted conversionType item (result st')\<rparr>)
               | Some e \<Rightarrow>
                   Inr (st'\<lparr>result := (result st')\<lparr>errors := errors (result st')
                     @ [failureMessage item e]\<rparr>\<rparr>)))
      else Inr (st\<lparr>result := countConverted conversionType item (result st)\<rparr>))"

fun forOfBatch ::
  "'s client \<Rightarrow> bool \<Rightarrow> mode \<Rightarrow> group list \<Rightarrow> 's run \<Rightarrow> (thrown \<times> 's run) + 's run" where
  "forOfBatch c dryRun conversionType [] st = Inr st"
| "forOfBatch c dryRun conversionType (item # rest) st =
     (case processItem c dryRun conversionType item st of
        Inl e \<Rightarrow> Inl e
      | Inr st' \<Rightarrow> forOfBatch c dryRun conversionType rest st')"

definition progressMessage :: "bool \<Rightarrow> nat \<Rightarrow> nat \<Rightarrow> string" where
  "progressMessage dryRun n len =
     (if dryRun then ''Would convert'' else ''Converted'') @ '' '' @ showNat n @ ''/''
       @ showNat len @ '' documents...''"

text \<open>
  The loop \<^verbatim>\<open>for (let i = 0; i < strongRefs.length; i += batchSize)\<close>. Nothing in the
  source makes \<^verbatim>\<open>batchSize\<close> positive, so the loop need not end: \<open>None\<close> is a run
  that never returns.
\<close>

partial_function (option) batchLoop ::
  "'s client \<Rightarrow> bool \<Rightarrow> mode \<Rightarrow> group list \<Rightarrow> int \<Rightarrow> int \<Rightarrow> 's run
     \<Rightarrow> ((thrown \<times> 's run) + 's run) option" where
  "batchLoop c dryRun conversionType strongRefs batchSize i st =
     (if i < int (length strongRefs) then
        (case forOfBatch c dryRun conversionType (slice strongRefs i (i + batchSize)) st of
           Inl e \<Rightarrow> Some (Inl e)
         | Inr st' \<Rightarrow>
             batchLoop c dryRun conversionType strongRefs batchSize (i + batchSize)
               (st'\<lparr>trace := trace st' @
                  [SetMessage (progressMessage dryRun (converted (result st'))
                     (length strongRefs))]\<rparr>))
      else Some (Inr st))"

declare batchLoop.simps [code]

text \<open>
  \<^verbatim>\<open>convertReferences\<close>: the effects and the store it leaves, or \<open>None\<close> when it never
  returns. \<open>OnComplete\<close> and \<open>OnError\<close> stand for the calls \<^verbatim>\<open>onComplete?.(result)\<close>
  and \<^verbatim>\<open>onError?.(errorMessage)\<close> of hooks that return normally.
\<close>

definition convertReferences ::
  "'s client option \<Rightarrow> group list \<Rightarrow> int \<Rightarrow> bool \<Rightarrow> mode \<Rightarrow> 's \<Rightarrow> (event list \<times> 's) option" where
  "convertReferences cl strongRefs batchSize dryRun conversionType s =
     (case cl of
        None \<Rightarrow> Some ([], s)
      | Some c \<Rightarrow>
          if strongRefs = [] then Some ([], s)
          else
            (case batchLoop c dryRun conversionType strongRefs batchSize 0
                    \<lparr>result = \<lparr>converted = 0, errors = [], spaceSaved = 0\<rparr>, store = s,
                     trace = [SetIsLoading True, SetMessage ''Converting references...'']\<rparr> of
               None \<Rightarrow> None
             | Some (Inr st) \<Rightarrow>
                 Some (trace st @
                   [SetMessage ((if dryRun then ''Dry run complete'' else ''Conversion complete'')
                      @ '': '' @ showNat (converted (result st)) @ '' documents processed''),
                    OnComplete (result st),
                    SetIsLoading False], store st)
             | Some (Inl (e, st)) \<Rightarrow>
                 Some (trace st @
                   [SetMessage (''Conversion error: '' @ errorMessage e ''Conversion failed''),
                    OnError (errorMessage e ''Conversion failed''),
                    SetIsLoading False], store st)))"

section \<open>Formatting a byte count\<close>

text \<open>
  \<^verbatim>\<open>formatBytes\<close> on a non-negative integer. \<open>unitIndex\<close> is
  \<^verbatim>\<open>Math.floor(Math.log(bytes) / Math.log(1024))\<close> with the logarithm taken exactly.
  \<open>toFixed2 bytes i\<close> is \<^verbatim>\<open>(bytes / Math.pow(1024, i)).toFixed(2)\<close>: the quotient is a
  dyadic rational, which \<^verbatim>\<open>toFixed\<close> rounds to hundredths, a tie upwards.
  \<open>parseFloatToString\<close> is \<^verbatim>\<open>parseFloat(s) + ''\<close> on such a string: the number
  printed again, without the zeros that end its fraction.
\<close>

fun unitIndex :: "nat \<Rightarrow> nat" where
  "unitIndex n = (if n < 1024 then 0 else Suc (unitIndex (n div 1024)))"

declare unitIndex.simps [simp del]

definition hundredths :: "nat \<Rightarrow> nat \<Rightarrow> nat" where
  "hundredths bytes i = (200 * bytes + 1024 ^ i) div (2 * 1024 ^ i)"

definition toFixed2 :: "nat \<Rightarrow> nat \<Rightarrow> string" where
  "toFixed2 bytes i =
     (let q = hundredths bytes i
      in showNat (q div 100) @ ''.'' @ [digitChar (q mod 100 div 10), digitChar (q mod 10)])"

definition parseFloatToString :: "string \<Rightarrow> string" where
  "parseFloatToString s =
     (let t = rev (dropWhile (\<lambda>ch. ch = CHR ''0'') (rev s))
      in if t \<noteq> [] \<and> last t = CHR ''.'' then butlast t else t)"

definition sizes :: "string list" where
  "sizes = [''Bytes'', ''KB'', ''MB'', ''GB'']"

definition formatBytes :: "nat \<Rightarrow> string" where
  "formatBytes bytes =
     (if bytes = 0 then ''0 Bytes''
      else
        (let i = unitIndex bytes
         in parseFloatToString (toFixed2 bytes i) @ '' ''
              @ (if i < length sizes then sizes ! i else ''undefined'')))"

section \<open>Notions the properties are stated with\<close>

text \<open>
  None of these is in the source. They name what the claims speak of: the path of a key,
  the occurrence pushed for a descriptor, the partition into batches, what one group does
  to the result, and the projections of a list of effects.
\<close>

definition currentPath :: "string \<Rightarrow> string \<Rightarrow> string" where
  "currentPath pfx key = (if pfx \<noteq> [] then pfx @ ''.'' @ key else key)"

definition occurrenceOf :: "mode \<Rightarrow> string \<Rightarrow> json \<Rightarrow> occurrence" where
  "occurrenceOf ctype p v =
     (case ctype of
        StrongToWeak \<Rightarrow> \<lparr>path = p, type = Strong, ref = getProp v ''_ref'',
                         weak = jsOr (getProp v ''_weak'') (JBool False)\<rparr>
      | WeakToStrong \<Rightarrow> \<lparr>path = p, type = Weak, ref = getProp v ''_ref'',
                         weak = JBool True\<rparr>)"

text \<open>
  The specification's partition: consecutive batches of \<open>n\<close> elements, the last one
  with what is left.
\<close>

function batchesOf :: "nat \<Rightarrow> 'a list \<Rightarrow> 'a list list" where
  "batchesOf n groups =
     (if groups = [] \<or> n = 0 then []
      else take n groups # batchesOf n (drop n groups))"
  by pat_completeness auto
termination
  by (relation "measure (length \<circ> snd)") auto

declare batchesOf.simps [simp del]

text \<open>
  The batches of a list processed one after the other, each followed by its progress
  message.
\<close>

fun runBatches ::
  "'s client \<Rightarrow> bool \<Rightarrow> mode \<Rightarrow> nat \<Rightarrow> group list list \<Rightarrow> 's run
     \<Rightarrow> (thrown \<times> 's run) + 's run" where
  "runBatches c dryRun conversionType len [] st = Inr st"
| "runBatches c dryRun conversionType len (b # bs) st =
     (case forOfBatch c dryRun conversionType b st of
        Inl e \<Rightarrow> Inl e
      | Inr st' \<Rightarrow>
          runBatches c dryRun conversionType len bs
            (st'\<lparr>trace := trace st' @
               [SetMessage (progressMessage dryRun (converted (result st')) len)]\<rparr>))"

text \<open>The patch chain of a group: the document's \<^verbatim>\<open>_id\<close> and its patches.\<close>

definition callOf :: "mode \<Rightarrow> group \<Rightarrow> json \<times> patch list" where
  "callOf conversionType g =
     (getProp (document g) ''_id'', buildPatches conversionType (references g))"

text \<open>What one group does to the counters and the store, and what its commit answers.\<close>

definition settle ::
  "'s client \<Rightarrow> bool \<Rightarrow> mode \<Rightarrow> group \<Rightarrow> ConversionResult \<times> 's \<Rightarrow> ConversionResult \<times> 's" where
  "settle c dryRun conversionType g rs =
     (if dryRun then (countConverted conversionType g (fst rs), snd rs)
      else
        (case commit c (snd rs) (fst (callOf conversionType g)) (snd (callOf conversionType g)) of
           (None, s') \<Rightarrow> (countConverted conversionType g (fst rs), s')
         | (Some e, s') \<Rightarrow> ((fst rs)\<lparr>errors := errors (fst rs) @ [failureMessage g e]\<rparr>, s')))"

fun outcomes :: "'s client \<Rightarrow> mode \<Rightarrow> group list \<Rightarrow> 's \<Rightarrow> thrown option list" where
  "outcomes c conversionType [] s = []"
| "outcomes c conversionType (g # gs) s =
     (case commit c s (fst (callOf conversionType g)) (snd (callOf conversionType g)) of
        (out, s') \<Rightarrow> out # outcomes c conversionType gs s')"

text \<open>The groups whose commit succeeded, and the messages of those whose commit threw.\<close>

fun succeeded :: "group list \<Rightarrow> thrown option list \<Rightarrow> group list" where
  "succeeded (g # gs) (None # os) = g # succeeded gs os"
| "succeeded (g # gs) (Some e # os) = succeeded gs os"
| "succeeded gs os = []"

fun failed :: "group list \<Rightarrow> thrown option list \<Rightarrow> string list" where
  "failed (g # gs) (None # os) = failed gs os"
| "failed (g # gs) (Some e # os) = failureMessage g e # failed gs os"
| "failed gs os = []"

definition spaceOf :: "mode \<Rightarrow> group list \<Rightarrow> nat" where
  "spaceOf conversionType gs =
     (if conversionType = StrongToWeak
      then sum_list (map (\<lambda>g. length (references g) * 20) gs) else 0)"

text \<open>
  The patch chains committed, the results handed to \<^verbatim>\<open>onComplete\<close>, the messages
  handed to \<^verbatim>\<open>onError\<close> and the queries fetched, in a list of effects.
\<close>

fun commitsOf :: "event list \<Rightarrow> (json \<times> patch list) list" where
  "commitsOf [] = []"
| "commitsOf (Commit d ps # es) = (d, ps) # commitsOf es"
| "commitsOf (e # es) = commitsOf es"

fun completions :: "event list \<Rightarrow> ConversionResult list" where
  "completions [] = []"
| "completions (OnComplete r # es) = r # completions es"
| "completions (e # es) = completions es"

fun failures :: "event list \<Rightarrow> string list" where
  "failures [] = []"
| "failures (OnError m # es) = m # failures es"
| "failures (e # es) = failures es"

fun fetchesOf :: "event list \<Rightarrow> string list" where
  "fetchesOf [] = []"
| "fetchesOf (Fetch q # es) = q # fetchesOf es"
| "fetchesOf (e # es) = fetchesOf es"

text \<open>
  A number of hundredths printed with at most two decimals: no zero ends the fraction,
  and no point stands without a fraction.
\<close>

definition twoDecimals :: "nat \<Rightarrow> string" where
  "twoDecimals q =
     showNat (q div 100)
     @ (if q mod 100 = 0 then ''''
        else if q mod 10 = 0 then ''.'' @ [digitChar (q mod 100 div 10)]
        else ''.'' @ [digitChar (q mod 100 div 10), digitChar (q mod 10)])"

text \<open>The running values \<^verbatim>\<open>convertReferences\<close> enters its loop with.\<close>

definition startRun :: "'s \<Rightarrow> 's run" where
  "startRun s = \<lparr>result = \<lparr>converted = 0, errors = [], spaceSaved = 0\<rparr>, store = s,
                 trace = [SetIsLoading True, SetMessage ''Converting references...'']\<rparr>"

fun runOf :: "(thrown \<times> 's run) + 's run \<Rightarrow> 's run" where
  "runOf (Inl (e, st)) = st"
| "runOf (Inr st) = st"

text \<open>
  Sample inputs: a document with one strong reference under \<^verbatim>\<open>author\<close>, the group a
  scan makes of it, and a client whose commit throws \<^verbatim>\<open>Error('timeout')\<close> for the
  document \<^verbatim>\<open>bad\<close> and counts the commits it was asked for; a client whose fetch
  throws \<^verbatim>\<open>Error('network')\<close>, and a group whose document is \<^verbatim>\<open>null\<close>.
\<close>

definition sampleDocument :: "string \<Rightarrow> json" where
  "sampleDocument docId =
     JObj [(''_id'', JStr docId), (''_type'', JStr ''post''),
           (''author'', JObj [(''_type'', JStr ''reference''), (''_ref'', JStr ''person-1'')])]"

definition sampleGroup :: "string \<Rightarrow> group" where
  "sampleGroup docId =
     \<lparr>document = sampleDocument docId,
      references = [\<lparr>path = ''author'', type = Strong, ref = JStr ''person-1'',
                     weak = JBool False\<rparr>],
      refCount = 1\<rparr>"

definition sampleClient :: "nat client" where
  "sampleClient =
     \<lparr>fetch = (\<lambda>s q. Inr [sampleDocument ''doc-1'', JObj [(''_id'', JStr ''doc-2'')]]),
      commit = (\<lambda>s docId ps.
        (if docId = JStr ''bad'' then Some (ErrorObject ''timeout'') else None, Suc s))\<rparr>"

definition sampleGroups :: "nat \<Rightarrow> group list" where
  "sampleGroups n = map (\<lambda>i. sampleGroup (''doc-'' @ showNat i)) [0..<n]"



text \<open>
  A place in a document: the keys and indices that lead to it from the root, and the path
  string that names it in dot and bracket notation.
\<close>

datatype segment = Key string | Index nat

fun isKey :: "segment \<Rightarrow> bool" where
  "isKey (Key k) = True"
| "isKey (Index i) = False"

fun getAt :: "segment list \<Rightarrow> json \<Rightarrow> json option" where
  "getAt [] v = Some v"
| "getAt (Key k # rest) (JObj fs) =
     (case map_of fs k of None \<Rightarrow> None | Some x \<Rightarrow> getAt rest x)"
| "getAt (Index i # rest) (JArr xs) = (if i < length xs then getAt rest (xs ! i) else None)"
| "getAt (sg # rest) v = None"

fun renderFrom :: "string \<Rightarrow> segment list \<Rightarrow> string" where
  "renderFrom pfx [] = pfx"
| "renderFrom pfx (Key k # rest) = renderFrom (currentPath pfx k) rest"
| "renderFrom pfx (Index i # rest) = renderFrom (pfx @ ''['' @ showNat i @ '']'') rest"

text \<open>
  How many reference descriptors a tree contains, wherever they sit: the root, the value
  of a property, an element of an array, inside another descriptor.
\<close>

fun descriptors :: "json \<Rightarrow> nat"
  and descriptorsOfItems :: "json list \<Rightarrow> nat"
  and descriptorsOfKeys :: "(string \<times> json) list \<Rightarrow> nat"
where
  "descriptors (JObj fs) = (if isReference (JObj fs) then 1 else 0) + descriptorsOfKeys fs"
| "descriptors (JArr xs) = descriptorsOfItems xs"
| "descriptors JUndefined = 0"
| "descriptors JNull = 0"
| "descriptors (JBool b) = 0"
| "descriptors (JNum n) = 0"
| "descriptors (JStr s) = 0"
| "descriptorsOfItems [] = 0"
| "descriptorsOfItems (x # xs) = descriptors x + descriptorsOfItems xs"
| "descriptorsOfKeys [] = 0"
| "descriptorsOfKeys ((k, v) # rest) = descriptors v + descriptorsOfKeys rest"

text \<open>
  The document with the value at a place replaced: what a store that sets the value a
  path names leaves of the document, the place being the one the path names. The first
  property of a key is the one that is read and replaced.
\<close>

fun updateKey :: "string \<Rightarrow> (json \<Rightarrow> json) \<Rightarrow> (string \<times> json) list \<Rightarrow> (string \<times> json) list" where
  "updateKey k f [] = []"
| "updateKey k f ((k', v) # rest) =
     (if k' = k then (k', f v) # rest else (k', v) # updateKey k f rest)"

primrec putAt :: "segment list \<Rightarrow> json \<Rightarrow> json \<Rightarrow> json" where
  "putAt [] new = (\<lambda>v. new)"
| "putAt (sg # rest) new =
     (\<lambda>v. case sg of
        Key k \<Rightarrow> (case v of JObj fs \<Rightarrow> JObj (updateKey k (putAt rest new) fs) | _ \<Rightarrow> v)
      | Index i \<Rightarrow>
          (case v of
             JArr xs \<Rightarrow> (if i < length xs then JArr (xs[i := putAt rest new (xs ! i)]) else v)
           | _ \<Rightarrow> v))"

text \<open>An object or an array.\<close>

fun compound :: "json \<Rightarrow> bool" where
  "compound (JObj fs) = True"
| "compound (JArr xs) = True"
| "compound v = False"

text \<open>What a tree contains below its root.\<close>

fun inner :: "json \<Rightarrow> nat" where
  "inner (JObj fs) = descriptorsOfKeys fs"
| "inner (JArr xs) = descriptorsOfItems xs"
| "inner v = 0"

text \<open>The values the two patches set for a reference to \<open>r\<close>.\<close>

definition weakValue :: "json \<Rightarrow> json" where
  "weakValue r = JObj [(''_type'', JStr ''reference''), (''_ref'', r), (''_weak'', JBool True)]"

definition strongValue :: "json \<Rightarrow> json" where
  "strongValue r = JObj [(''_type'', JStr ''reference''), (''_ref'', r)]"

text \<open>
  Sample documents: one whose reference is at \<^verbatim>\<open>body[1].linked\<close>, and one whose reference
  is directly an element of the array \<^verbatim>\<open>authors\<close>.
\<close>

definition nestedDocument :: json where
  "nestedDocument =
     JObj [(''_id'', JStr ''doc-9''),
           (''body'', JArr [JObj [(''n'', JNum 1)],
              JObj [(''linked'', JObj [(''_type'', JStr ''reference''),
                 (''_ref'', JStr ''p'')])]])]"

definition listedDocument :: json where
  "listedDocument =
     JObj [(''_id'', JStr ''doc-8''),
           (''authors'', JArr [JObj [(''_type'', JStr ''reference''), (''_ref'', JStr ''p'')]])]"

section \<open>Properties of the reference finder\<close>

lemma isReference_object: "isReference v \<Longrightarrow> truthy v \<and> typeofObject v"
  by (cases v) (simp_all add: isReference_def)

lemma emitted_object: "emitted ctype v \<Longrightarrow> truthy v \<and> typeofObject v"
  using isReference_object by (cases ctype) (simp_all add: emitted_def)

lemma forEachKey_tests:
  "forEachKey ((key, val) # rest) ctype pfx =
     (if truthy val \<and> typeofObject val then
        (if ctype = StrongToWeak \<and> isReference val
         then [occurrenceOf StrongToWeak (currentPath pfx key) val]
         else if ctype = WeakToStrong \<and> isReference val \<and> markedWeak val
         then [occurrenceOf WeakToStrong (currentPath pfx key) val]
         else findReferences val ctype (currentPath pfx key))
      else [])
     @ forEachKey rest ctype pfx"
  unfolding isReference_def markedWeak_def currentPath_def occurrenceOf_def
  by (simp only: forEachKey.simps Let_def conj_assoc mode.case)

lemmas forEachKey_raw = forEachKey.simps(2)

declare forEachKey.simps(2) [simp del]

lemma forEachKey_Cons:
  "forEachKey ((key, val) # rest) ctype pfx =
     (if emitted ctype val then [occurrenceOf ctype (currentPath pfx key) val]
      else if truthy val \<and> typeofObject val
           then findReferences val ctype (currentPath pfx key)
      else [])
     @ forEachKey rest ctype pfx"
proof (cases "isReference val")
  case True
  then have "truthy val" "typeofObject val" using isReference_object by blast+
  then show ?thesis using True
    by (cases ctype; cases "markedWeak val") (simp_all add: forEachKey_tests emitted_def)
next
  case False
  then show ?thesis
    by (cases ctype) (simp_all add: forEachKey_tests emitted_def)
qed

lemma forEachKey_append:
  "forEachKey (as @ bs) ctype pfx = forEachKey as ctype pfx @ forEachKey bs ctype pfx"
proof (induction as)
  case Nil
  then show ?case by simp
next
  case (Cons a as)
  obtain key val where "a = (key, val)" by (cases a)
  then show ?case using Cons.IH by (simp add: forEachKey_Cons)
qed

lemma forEachKey_emits:
  assumes "(k, d) \<in> set fs" and "emitted ctype d"
  shows "occurrenceOf ctype (currentPath pfx k) d \<in> set (forEachKey fs ctype pfx)"
proof -
  from assms(1) obtain as bs where "fs = as @ (k, d) # bs"
    by (meson split_list)
  then show ?thesis using assms(2)
    by (simp add: forEachKey_append forEachKey_Cons)
qed

lemma forEachKey_descends:
  assumes "(k, v) \<in> set fs" and "\<not> emitted ctype v" and "truthy v" and "typeofObject v"
  shows "set (findReferences v ctype (currentPath pfx k)) \<subseteq> set (forEachKey fs ctype pfx)"
proof -
  from assms(1) obtain as bs where "fs = as @ (k, v) # bs"
    by (meson split_list)
  then show ?thesis using assms(2-4)
    by (auto simp: forEachKey_append forEachKey_Cons)
qed

lemma forEachItem_nth:
  "i < length xs \<Longrightarrow>
   set (findReferences (xs ! i) ctype (pfx @ ''['' @ showNat (start + i) @ '']''))
     \<subseteq> set (forEachItem xs start ctype pfx)"
proof (induction xs arbitrary: i start)
  case Nil
  then show ?case by simp
next
  case (Cons x xs)
  show ?case
  proof (cases i)
    case 0
    then show ?thesis by simp
  next
    case (Suc j)
    then have "j < length xs" using Cons.prems by simp
    from Cons.IH [OF this, of "Suc start"] show ?thesis
      using Suc by auto
  qed
qed

lemma path_occurrenceOf [simp]: "path (occurrenceOf ctype p v) = p"
  by (cases ctype) (simp_all add: occurrenceOf_def)

lemma ref_occurrenceOf [simp]: "ref (occurrenceOf ctype p v) = getProp v ''_ref''"
  by (cases ctype) (simp_all add: occurrenceOf_def)

text \<open>
  C8. Wherever the finder is at work, under any prefix \<open>pfx\<close>: a reference descriptor
  that is the value of a key \<open>k2\<close> of an object that is element \<open>i\<close> of an array that is
  the value of a key \<open>k1\<close> of the object at hand is found under the path of \<open>k1\<close> (the
  prefix, a dot and \<open>k1\<close>, or \<open>k1\<close> alone at the root), the index in brackets, a dot and
  \<open>k2\<close>. What is found in a property value that is not itself emitted, under the path of
  its key, and in an array element, under the prefix and the bracketed index, is found
  for the enclosing object or array: so the pattern is found with its full path at any
  depth of a document. In particular the document
  \<^verbatim>\<open>{items: [x, {linked: {_type: 'reference', _ref: r}}]}\<close> has its reference at
  \<^verbatim>\<open>items[1].linked\<close>, and the same array under \<^verbatim>\<open>content\<close> at
  \<^verbatim>\<open>content.items[1].linked\<close>.
\<close>

theorem findReferences_array_in_object_path:
  "((k1, JArr xs) \<in> set fs \<and> i < length xs \<and> xs ! i = JObj gs \<and> (k2, d) \<in> set gs
      \<and> emitted ctype d
    \<longrightarrow> (\<exists>occ. occ \<in> set (findReferences (JObj fs) ctype pfx)
          \<and> path occ = (if pfx \<noteq> [] then pfx @ ''.'' @ k1 else k1)
                          @ ''['' @ showNat i @ ''].'' @ k2
          \<and> ref occ = getProp d ''_ref''))
   \<and> ((k, v) \<in> set fs \<and> \<not> emitted ctype v \<and> truthy v \<and> typeofObject v
       \<longrightarrow> set (findReferences v ctype (if pfx \<noteq> [] then pfx @ ''.'' @ k else k))
            \<subseteq> set (findReferences (JObj fs) ctype pfx))
   \<and> (i < length xs
       \<longrightarrow> set (findReferences (xs ! i) ctype (pfx @ ''['' @ showNat i @ '']''))
            \<subseteq> set (findReferences (JArr xs) ctype pfx))
   \<and> (truthy r \<longrightarrow>
        findReferences
          (JObj [(''items'', JArr [x, JObj [(''linked'',
             JObj [(''_type'', JStr ''reference''), (''_ref'', r)])]])])
          StrongToWeak ''''
        = findReferences x StrongToWeak ''items[0]''
          @ [\<lparr>path = ''items[1].linked'', type = Strong, ref = r, weak = JBool False\<rparr>])
   \<and> (truthy r \<longrightarrow>
        findReferences
          (JObj [(''content'', JObj [(''items'', JArr [x, JObj [(''linked'',
             JObj [(''_type'', JStr ''reference''), (''_ref'', r)])]])])])
          StrongToWeak ''''
        = findReferences x StrongToWeak ''content.items[0]''
          @ [\<lparr>path = ''content.items[1].linked'', type = Strong, ref = r,
               weak = JBool False\<rparr>])"
proof (intro conjI impI)
  assume a: "(k1, JArr xs) \<in> set fs \<and> i < length xs \<and> xs ! i = JObj gs \<and> (k2, d) \<in> set gs
      \<and> emitted ctype d"
  define p where "p = currentPath pfx k1 @ ''['' @ showNat i @ '']''"
  define occ where "occ = occurrenceOf ctype (p @ ''.'' @ k2) d"
  have pne: "currentPath p k2 = p @ ''.'' @ k2" by (simp add: p_def currentPath_def)
  have "occ \<in> set (forEachKey gs ctype p)"
    using a forEachKey_emits [of k2 d gs ctype p] pne by (simp add: occ_def)
  then have "occ \<in> set (findReferences (xs ! i) ctype
                (currentPath pfx k1 @ ''['' @ showNat (0 + i) @ '']''))"
    using a by (simp add: p_def)
  then have inner: "occ \<in> set (findReferences (JArr xs) ctype (currentPath pfx k1))"
    using forEachItem_nth [of i xs ctype "currentPath pfx k1" 0] a by auto
  have arr: "\<not> emitted ctype (JArr xs)"
    by (cases ctype) (simp_all add: emitted_def isReference_def)
  have "set (findReferences (JArr xs) ctype (currentPath pfx k1))
          \<subseteq> set (forEachKey fs ctype pfx)"
    using a arr by (intro forEachKey_descends) simp_all
  then have "occ \<in> set (findReferences (JObj fs) ctype pfx)"
    using inner by auto
  moreover have "path occ = (if pfx \<noteq> [] then pfx @ ''.'' @ k1 else k1)
                          @ ''['' @ showNat i @ ''].'' @ k2"
    by (simp add: occ_def p_def currentPath_def)
  moreover have "ref occ = getProp d ''_ref''" by (simp add: occ_def)
  ultimately show "\<exists>occ. occ \<in> set (findReferences (JObj fs) ctype pfx)
          \<and> path occ = (if pfx \<noteq> [] then pfx @ ''.'' @ k1 else k1)
                          @ ''['' @ showNat i @ ''].'' @ k2
          \<and> ref occ = getProp d ''_ref''"
    by (intro exI [of _ occ] conjI)
next
  assume b: "(k, v) \<in> set fs \<and> \<not> emitted ctype v \<and> truthy v \<and> typeofObject v"
  then have "set (findReferences v ctype (currentPath pfx k)) \<subseteq> set (forEachKey fs ctype pfx)"
    by (intro forEachKey_descends) simp_all
  then show "set (findReferences v ctype (if pfx \<noteq> [] then pfx @ ''.'' @ k else k))
            \<subseteq> set (findReferences (JObj fs) ctype pfx)"
    by (simp add: currentPath_def)
next
  assume "i < length xs"
  from forEachItem_nth [OF this, of ctype pfx 0]
  show "set (findReferences (xs ! i) ctype (pfx @ ''['' @ showNat i @ '']''))
            \<subseteq> set (findReferences (JArr xs) ctype pfx)"
    by simp
next
  assume "truthy r"
  then show "findReferences
          (JObj [(''items'', JArr [x, JObj [(''linked'',
             JObj [(''_type'', JStr ''reference''), (''_ref'', r)])]])])
          StrongToWeak ''''
        = findReferences x StrongToWeak ''items[0]''
          @ [\<lparr>path = ''items[1].linked'', type = Strong, ref = r, weak = JBool False\<rparr>]"
    by (simp add: forEachKey_Cons emitted_def isReference_def occurrenceOf_def
        currentPath_def showNat.simps digitChar_def jsOr_def)
next
  assume "truthy r"
  then show "findReferences
          (JObj [(''content'', JObj [(''items'', JArr [x, JObj [(''linked'',
             JObj [(''_type'', JStr ''reference''), (''_ref'', r)])]])])])
          StrongToWeak ''''
        = findReferences x StrongToWeak ''content.items[0]''
          @ [\<lparr>path = ''content.items[1].linked'', type = Strong, ref = r,
               weak = JBool False\<rparr>]"
    by (simp add: forEachKey_Cons emitted_def isReference_def occurrenceOf_def
        currentPath_def showNat.simps digitChar_def jsOr_def)
qed

theorem findReferences_array_in_object_path_witness:
  "findReferences
     (JObj [(''content'', JObj [(''items'', JArr [JStr ''first'', JObj [(''linked'',
        JObj [(''_type'', JStr ''reference''), (''_ref'', JStr ''doc-2'')])]])])])
     StrongToWeak ''''
   = [\<lparr>path = ''content.items[1].linked'', type = Strong, ref = JStr ''doc-2'',
        weak = JBool False\<rparr>]
   \<and> findReferences
     (JObj [(''items'', JArr [JStr ''first'', JObj [(''linked'',
        JObj [(''_type'', JStr ''reference''), (''_ref'', JStr ''doc-2'')])]])])
     StrongToWeak ''''
   = [\<lparr>path = ''items[1].linked'', type = Strong, ref = JStr ''doc-2'', weak = JBool False\<rparr>]
   \<and> (\<exists>occ. occ \<in> set (findReferences
          (JObj [(''title'', JStr ''t''),
                 (''rows'', JArr [JNull, JNull, JObj [(''ref'',
                    JObj [(''_type'', JStr ''reference''), (''_ref'', JStr ''doc-3''),
                          (''_weak'', JBool True)])]])])
          WeakToStrong ''body'')
        \<and> path occ = ''body.rows[2].ref'' \<and> ref occ = JStr ''doc-3'')
   \<and> set (findReferences
          (JArr [JNull, JNull, JObj [(''ref'',
             JObj [(''_type'', JStr ''reference''), (''_ref'', JStr ''doc-3''),
                   (''_weak'', JBool True)])]])
          WeakToStrong ''body.rows'')
     \<subseteq> set (findReferences
          (JObj [(''title'', JStr ''t''),
                 (''rows'', JArr [JNull, JNull, JObj [(''ref'',
                    JObj [(''_type'', JStr ''reference''), (''_ref'', JStr ''doc-3''),
                          (''_weak'', JBool True)])]])])
          WeakToStrong ''body'')
   \<and> set (findReferences
          (JObj [(''ref'',
             JObj [(''_type'', JStr ''reference''), (''_ref'', JStr ''doc-3''),
                   (''_weak'', JBool True)])])
          WeakToStrong ''body[2]'')
     \<subseteq> set (findReferences
          (JArr [JNull, JNull, JObj [(''ref'',
             JObj [(''_type'', JStr ''reference''), (''_ref'', JStr ''doc-3''),
                   (''_weak'', JBool True)])]])
          WeakToStrong ''body'')"
proof -
  define desc where "desc = JObj [(''_type'', JStr ''reference''), (''_ref'', JStr ''doc-3''),
                          (''_weak'', JBool True)]"
  define gs where "gs = [(''ref'', desc)]"
  define xs where "xs = [JNull, JNull, JObj gs]"
  define fs where "fs = [(''title'', JStr ''t''), (''rows'', JArr xs)]"
  have one: "truthy (JStr ''doc-2'')" by simp
  have two: "(''rows'', JArr xs) \<in> set fs \<and> (2::nat) < length xs \<and> xs ! 2 = JObj gs
      \<and> (''ref'', desc) \<in> set gs \<and> emitted WeakToStrong desc"
    by (simp add: fs_def xs_def gs_def desc_def emitted_def isReference_def markedWeak_def)
  have sn: "showNat 2 = ''2''" by (simp add: showNat.simps digitChar_def)
  note inst = findReferences_array_in_object_path
    [of "''rows''" xs fs 2 gs "''ref''" desc WeakToStrong "''body''" "''rows''" "JArr xs"
        "JStr ''doc-2''" "JStr ''first''"]
  note i1 = inst [THEN conjunct1, THEN mp, OF two]
  note i4 = inst [THEN conjunct2, THEN conjunct2, THEN conjunct2, THEN conjunct1, THEN mp,
      OF one]
  note i5 = inst [THEN conjunct2, THEN conjunct2, THEN conjunct2, THEN conjunct2, THEN mp,
      OF one]
  from i1 obtain occ where occ: "occ \<in> set (findReferences (JObj fs) WeakToStrong ''body'')"
    "path occ = (if ''body'' \<noteq> [] then ''body'' @ ''.'' @ ''rows'' else ''rows'')
                  @ ''['' @ showNat 2 @ ''].'' @ ''ref''"
    "ref occ = getProp desc ''_ref''"
    by (elim exE conjE)
  have p: "path occ = ''body.rows[2].ref''" using occ(2) unfolding sn by simp
  have r: "ref occ = JStr ''doc-3''" using occ(3) by (simp add: desc_def)
  have a: "\<exists>occ. occ \<in> set (findReferences (JObj fs) WeakToStrong ''body'')
        \<and> path occ = ''body.rows[2].ref'' \<and> ref occ = JStr ''doc-3''"
    by (intro exI [of _ occ] conjI occ(1) p r)
  have b: "findReferences
     (JObj [(''items'', JArr [JStr ''first'', JObj [(''linked'',
        JObj [(''_type'', JStr ''reference''), (''_ref'', JStr ''doc-2'')])]])])
     StrongToWeak ''''
   = [\<lparr>path = ''items[1].linked'', type = Strong, ref = JStr ''doc-2'', weak = JBool False\<rparr>]"
    using i4 by simp
  have c: "findReferences
     (JObj [(''content'', JObj [(''items'', JArr [JStr ''first'', JObj [(''linked'',
        JObj [(''_type'', JStr ''reference''), (''_ref'', JStr ''doc-2'')])]])])])
     StrongToWeak ''''
   = [\<lparr>path = ''content.items[1].linked'', type = Strong, ref = JStr ''doc-2'',
        weak = JBool False\<rparr>]"
    using i5 by simp
  have three: "(''rows'', JArr xs) \<in> set fs \<and> \<not> emitted WeakToStrong (JArr xs)
      \<and> truthy (JArr xs) \<and> typeofObject (JArr xs)"
    by (simp add: fs_def emitted_def isReference_def)
  have four: "(2::nat) < length xs" by (simp add: xs_def)
  have p2: "(if ''body'' \<noteq> [] then ''body'' @ ''.'' @ ''rows'' else ''rows'') = ''body.rows''"
    by simp
  have p3: "''body'' @ ''['' @ showNat 2 @ '']'' = ''body[2]''"
    unfolding sn by simp
  have x2: "xs ! 2 = JObj gs" by (simp add: xs_def)
  note i2 = inst [THEN conjunct2, THEN conjunct1, THEN mp, OF three, unfolded p2]
  note i3 = inst [THEN conjunct2, THEN conjunct2, THEN conjunct1, THEN mp, OF four,
      unfolded p3 x2]
  show ?thesis
    using a i2 i3 unfolding fs_def xs_def gs_def desc_def by (intro conjI c b)
qed

text \<open>
  C1. The claim does not hold of the code: in StrongToWeak mode the finder emits an
  occurrence for a descriptor that already carries the weak marker, labelled strong and
  with the marker copied into \<open>weak\<close>.
\<close>

theorem findReferences_emits_weak_descriptor:
  "findReferences
     (JObj [(''author'', JObj [(''_type'', JStr ''reference''), (''_ref'', JStr ''person-1''),
                               (''_weak'', JBool True)])])
     StrongToWeak ''''
   = [\<lparr>path = ''author'', type = Strong, ref = JStr ''person-1'', weak = JBool True\<rparr>]"
  by (simp add: forEachKey_Cons emitted_def isReference_def occurrenceOf_def currentPath_def
      jsOr_def)

lemma isReference_cases:
  assumes "isReference v"
  obtains fs where "v = JObj fs"
  using assms by (cases v) (simp_all add: isReference_def)

lemma descriptors_isReference:
  assumes "isReference v"
  shows "1 \<le> descriptors v"
proof -
  from assms obtain fs where "v = JObj fs" by (rule isReference_cases)
  then show ?thesis using assms by simp
qed

lemma no_descriptor:
  "descriptors v = 0 \<Longrightarrow> findReferences v ctype pfx = []"
  "descriptorsOfItems xs = 0 \<Longrightarrow> forEachItem xs index ctype pfx = []"
  "descriptorsOfKeys fs = 0 \<Longrightarrow> forEachKey fs ctype pfx = []"
proof (induction v and xs and fs arbitrary: pfx and index pfx and pfx
    rule: descriptors_descriptorsOfItems_descriptorsOfKeys.induct)
  case (11 k v rest)
  from "11.prems" have v: "descriptors v = 0" and r: "descriptorsOfKeys rest = 0" by simp_all
  from v have "\<not> isReference v" using descriptors_isReference [of v] by auto
  then have "\<not> emitted ctype v" by (cases ctype) (simp_all add: emitted_def)
  then show ?case using "11.IH"(1) [OF v] "11.IH"(2) [OF r]
    by (simp add: forEachKey_Cons)
qed (simp_all split: if_splits)

lemma descriptorsOfKeys_append:
  "descriptorsOfKeys (as @ bs) = descriptorsOfKeys as + descriptorsOfKeys bs"
  by (induction as) auto

lemma descriptorsOfItems_append:
  "descriptorsOfItems (as @ bs) = descriptorsOfItems as + descriptorsOfItems bs"
  by (induction as) auto

lemma forEachItem_append:
  "forEachItem (as @ bs) start ctype pfx
   = forEachItem as start ctype pfx @ forEachItem bs (start + length as) ctype pfx"
  by (induction as arbitrary: start) simp_all

lemma map_of_split:
  assumes "map_of fs k = Some x"
  shows "\<exists>as bs. fs = as @ (k, x) # bs \<and> k \<notin> fst ` set as"
  using assms
proof (induction fs)
  case Nil
  then show ?case by simp
next
  case (Cons a fs)
  obtain k' v where a: "a = (k', v)" by (cases a)
  show ?case
  proof (cases "k' = k")
    case True
    then have "a # fs = [] @ (k, x) # fs" using Cons.prems a by simp
    then show ?thesis by fastforce
  next
    case False
    then have "map_of fs k = Some x" using Cons.prems a by simp
    from Cons.IH [OF this] obtain as bs where "fs = as @ (k, x) # bs" "k \<notin> fst ` set as"
      by blast
    then have "a # fs = (a # as) @ (k, x) # bs \<and> k \<notin> fst ` set (a # as)"
      using False a by simp
    then show ?thesis by blast
  qed
qed

lemma inner_le: "inner v \<le> descriptors v"
  by (cases v) simp_all

lemma getAt_descriptors:
  "getAt segs v = Some d \<Longrightarrow> descriptors d \<le> descriptors v"
  "getAt segs v = Some d \<Longrightarrow> segs \<noteq> [] \<Longrightarrow> descriptors d \<le> inner v"
proof (induction segs arbitrary: v)
  case Nil
  { case 1 then show ?case by simp }
  { case 2 then show ?case by simp }
next
  case (Cons sg segs)
  {
    case 2
    show ?case
    proof (cases sg)
      case (Key k)
      then obtain fs where v: "v = JObj fs" using 2(1) by (cases v) simp_all
      then obtain x where x: "map_of fs k = Some x" "getAt segs x = Some d"
        using 2(1) Key by (auto split: option.splits)
      from map_of_split [OF x(1)] obtain as bs where "fs = as @ (k, x) # bs" by blast
      then have "descriptors x \<le> descriptorsOfKeys fs"
        by (simp add: descriptorsOfKeys_append)
      then show ?thesis using Cons.IH(1) [OF x(2)] v by simp
    next
      case (Index i)
      then obtain xs where v: "v = JArr xs" using 2(1) by (cases v) simp_all
      then have i: "i < length xs" "getAt segs (xs ! i) = Some d"
        using 2(1) Index by (auto split: if_splits)
      have "xs = take i xs @ xs ! i # drop (Suc i) xs"
        using i(1) by (simp add: id_take_nth_drop)
      then have "descriptorsOfItems xs = descriptorsOfItems (take i xs)
          + (descriptors (xs ! i) + descriptorsOfItems (drop (Suc i) xs))"
        by (metis descriptorsOfItems_append descriptorsOfItems.simps(2))
      then show ?thesis using Cons.IH(1) [OF i(2)] v by simp
    qed
  }
  note below = this
  {
    case 1
    from below [OF 1] inner_le [of v] show ?case by simp
  }
qed

lemma getAt_compound:
  assumes "getAt segs v = Some d" and "segs \<noteq> []"
  shows "truthy v \<and> typeofObject v"
proof -
  obtain sg rest where s: "segs = sg # rest" using assms(2) by (cases segs) auto
  show ?thesis using assms(1) unfolding s by (cases sg; cases v) simp_all
qed

lemma emitted_isReference: "emitted ctype v \<Longrightarrow> isReference v"
  by (cases ctype) (simp_all add: emitted_def)

lemma only_descriptor:
  assumes "descriptors v = 1" and "getAt segs v = Some d" and "emitted ctype d"
    and "segs \<noteq> []" and "isKey (last segs)"
  shows "findReferences v ctype pfx = [occurrenceOf ctype (renderFrom pfx segs) d]"
  using assms
proof (induction segs arbitrary: v pfx)
  case Nil
  then show ?case by simp
next
  case (Cons sg rest)
  have d1: "1 \<le> descriptors d"
    using descriptors_isReference [OF emitted_isReference [OF Cons.prems(3)]] .
  show ?case
  proof (cases sg)
    case (Key k)
    then obtain fs where v: "v = JObj fs" using Cons.prems(2) by (cases v) simp_all
    then obtain x where x: "map_of fs k = Some x" "getAt rest x = Some d"
      using Cons.prems(2) Key by (auto split: option.splits)
    from map_of_split [OF x(1)] obtain as bs where fs: "fs = as @ (k, x) # bs" by blast
    have dx: "descriptors d \<le> descriptors x" using getAt_descriptors(1) [OF x(2)] .
    have sum: "(if isReference (JObj fs) then 1 else 0) + descriptorsOfKeys as
        + descriptors x + descriptorsOfKeys bs = 1"
      using Cons.prems(1) unfolding v fs by (simp add: descriptorsOfKeys_append)
    have as0: "descriptorsOfKeys as = 0" and bs0: "descriptorsOfKeys bs = 0"
      and x1: "descriptors x = 1"
      using sum d1 dx by (simp_all split: if_splits)
    have split: "forEachKey fs ctype pfx
        = (if emitted ctype x then [occurrenceOf ctype (currentPath pfx k) x]
           else if truthy x \<and> typeofObject x
                then findReferences x ctype (currentPath pfx k)
           else [])"
      unfolding fs forEachKey_append forEachKey_Cons
      by (simp add: no_descriptor(3) [OF as0] no_descriptor(3) [OF bs0])
    show ?thesis
    proof (cases "rest = []")
      case True
      then have "x = d" using x(2) by simp
      then show ?thesis using split Cons.prems(3) True Key v by simp
    next
      case False
      have "descriptors d \<le> inner x" using getAt_descriptors(2) [OF x(2) False] .
      then have "\<not> isReference x" using x1 d1
        by (cases x) (simp_all add: isReference_def split: if_splits)
      then have ne: "\<not> emitted ctype x" using emitted_isReference by blast
      have ob: "truthy x \<and> typeofObject x" using getAt_compound [OF x(2) False] .
      have lk: "isKey (last rest)" using Cons.prems(5) False by simp
      from Cons.IH [OF x1 x(2) Cons.prems(3) False lk, of "currentPath pfx k"]
      show ?thesis using split ne ob Key v by simp
    qed
  next
    case (Index i)
    then obtain xs where v: "v = JArr xs" using Cons.prems(2) by (cases v) simp_all
    then have i: "i < length xs" "getAt rest (xs ! i) = Some d"
      using Cons.prems(2) Index by (auto split: if_splits)
    have rest: "rest \<noteq> []" using Cons.prems(5) Index by auto
    have xs: "xs = take i xs @ xs ! i # drop (Suc i) xs"
      using i(1) by (simp add: id_take_nth_drop)
    have cnt: "descriptorsOfItems xs = descriptorsOfItems (take i xs)
          + (descriptors (xs ! i) + descriptorsOfItems (drop (Suc i) xs))"
      by (metis xs descriptorsOfItems_append descriptorsOfItems.simps(2))
    have dx: "descriptors d \<le> descriptors (xs ! i)" using getAt_descriptors(1) [OF i(2)] .
    have t0: "descriptorsOfItems (take i xs) = 0"
      and r0: "descriptorsOfItems (drop (Suc i) xs) = 0"
      and x1: "descriptors (xs ! i) = 1"
      using cnt Cons.prems(1) d1 dx unfolding v by simp_all
    have "forEachItem xs 0 ctype pfx
        = forEachItem (take i xs) 0 ctype pfx
          @ forEachItem (xs ! i # drop (Suc i) xs) (0 + length (take i xs)) ctype pfx"
      by (metis xs forEachItem_append)
    also have "\<dots> = findReferences (xs ! i) ctype (pfx @ ''['' @ showNat i @ '']'')"
      using i(1) by (simp add: no_descriptor(2) [OF t0] no_descriptor(2) [OF r0] min_def)
    finally have split: "forEachItem xs 0 ctype pfx
        = findReferences (xs ! i) ctype (pfx @ ''['' @ showNat i @ '']'')" .
    have lk: "isKey (last rest)" using Cons.prems(5) rest by simp
    from Cons.IH [OF x1 i(2) Cons.prems(3) rest lk, of "pfx @ ''['' @ showNat i @ '']''"]
    show ?thesis using split Index v by simp
  qed
qed

lemma putAt_Key [simp]:
  "putAt (Key k # rest) new (JObj fs) = JObj (updateKey k (putAt rest new) fs)"
  by simp

lemma putAt_Index [simp]:
  "i < length xs \<Longrightarrow>
   putAt (Index i # rest) new (JArr xs) = JArr (xs[i := putAt rest new (xs ! i)])"
  by simp

lemma putAt_Nil [simp]: "putAt [] new v = new"
  by simp

declare putAt.simps [simp del]

lemma map_of_updateKey:
  "map_of (updateKey k f fs) k' = (if k' = k then map_option f (map_of fs k) else map_of fs k')"
  by (induction fs) auto

lemma updateKey_split:
  "k \<notin> fst ` set as \<Longrightarrow> updateKey k f (as @ (k, x) # bs) = as @ (k, f x) # bs"
  by (induction as) auto

lemma getAt_putAt:
  "getAt segs v = Some d \<Longrightarrow> getAt segs (putAt segs new v) = Some new"
proof (induction segs arbitrary: v)
  case Nil
  then show ?case by simp
next
  case (Cons sg rest)
  show ?case
  proof (cases sg)
    case (Key k)
    then obtain fs where v: "v = JObj fs" using Cons.prems by (cases v) simp_all
    then obtain x where x: "map_of fs k = Some x" "getAt rest x = Some d"
      using Cons.prems Key by (auto split: option.splits)
    from Cons.IH [OF x(2)] show ?thesis
      unfolding Key v by (simp add: map_of_updateKey x(1))
  next
    case (Index i)
    then obtain xs where v: "v = JArr xs" using Cons.prems by (cases v) simp_all
    then have i: "i < length xs" "getAt rest (xs ! i) = Some d"
      using Cons.prems Index by (auto split: if_splits)
    from Cons.IH [OF i(2)] show ?thesis
      unfolding Index v using i(1) by simp
  qed
qed

lemma putAt_same:
  "getAt segs v = Some d \<Longrightarrow> putAt segs d v = v"
proof (induction segs arbitrary: v)
  case Nil
  then show ?case by simp
next
  case (Cons sg rest)
  show ?case
  proof (cases sg)
    case (Key k)
    then obtain fs where v: "v = JObj fs" using Cons.prems by (cases v) simp_all
    then obtain x where x: "map_of fs k = Some x" "getAt rest x = Some d"
      using Cons.prems Key by (auto split: option.splits)
    from map_of_split [OF x(1)] obtain as bs where
      fs: "fs = as @ (k, x) # bs" "k \<notin> fst ` set as" by blast
    from Cons.IH [OF x(2)] show ?thesis
      unfolding Key v by (simp add: fs(1) updateKey_split [OF fs(2)])
  next
    case (Index i)
    then obtain xs where v: "v = JArr xs" using Cons.prems by (cases v) simp_all
    then have i: "i < length xs" "getAt rest (xs ! i) = Some d"
      using Cons.prems Index by (auto split: if_splits)
    from Cons.IH [OF i(2)] show ?thesis
      unfolding Index v using i(1) by simp
  qed
qed

lemma putAt_twice:
  "getAt segs v = Some d \<Longrightarrow> putAt segs b (putAt segs a v) = putAt segs b v"
proof (induction segs arbitrary: v)
  case Nil
  then show ?case by simp
next
  case (Cons sg rest)
  show ?case
  proof (cases sg)
    case (Key k)
    then obtain fs where v: "v = JObj fs" using Cons.prems by (cases v) simp_all
    then obtain x where x: "map_of fs k = Some x" "getAt rest x = Some d"
      using Cons.prems Key by (auto split: option.splits)
    from map_of_split [OF x(1)] obtain as bs where
      fs: "fs = as @ (k, x) # bs" "k \<notin> fst ` set as" by blast
    from Cons.IH [OF x(2)] show ?thesis
      unfolding Key v by (simp add: fs(1) updateKey_split [OF fs(2)])
  next
    case (Index i)
    then obtain xs where v: "v = JArr xs" using Cons.prems by (cases v) simp_all
    then have i: "i < length xs" "getAt rest (xs ! i) = Some d"
      using Cons.prems Index by (auto split: if_splits)
    from Cons.IH [OF i(2)] show ?thesis
      unfolding Index v using i(1) by simp
  qed
qed

lemma compound_cases:
  assumes "compound v"
  obtains fs where "v = JObj fs" | xs where "v = JArr xs"
  using assms by (cases v) simp_all

lemma putAt_compound:
  assumes "getAt segs v = Some d" and "compound new" and "compound d"
  shows "compound v \<and> compound (putAt segs new v)"
proof (cases segs)
  case Nil
  then show ?thesis using assms by simp
next
  case (Cons sg rest)
  show ?thesis
  proof (cases sg)
    case (Key k)
    then obtain fs where v: "v = JObj fs" using assms(1) Cons by (cases v) simp_all
    then show ?thesis unfolding Cons Key by simp
  next
    case (Index i)
    then obtain xs where v: "v = JArr xs" using assms(1) Cons by (cases v) simp_all
    then have "i < length xs" using assms(1) Cons Index by (auto split: if_splits)
    then show ?thesis unfolding Cons Index v by simp
  qed
qed

lemma isReference_updateKey:
  assumes "map_of fs k = Some x" and "compound x" and "compound (f x)"
  shows "isReference (JObj (updateKey k f fs)) = isReference (JObj fs)"
proof -
  have t: "x \<noteq> JStr ''reference''" "f x \<noteq> JStr ''reference''" "truthy x" "truthy (f x)"
    using assms(2,3) by (auto elim!: compound_cases)
  show ?thesis
    unfolding isReference_def using t
    by (auto simp: map_of_updateKey assms(1) split: option.splits)
qed

lemma descriptors_putAt:
  assumes "getAt segs v = Some d" and "compound d" and "compound new"
    and "descriptors new = descriptors d"
  shows "descriptors (putAt segs new v) = descriptors v"
  using assms(1)
proof (induction segs arbitrary: v)
  case Nil
  then show ?case using assms(4) by simp
next
  case (Cons sg rest)
  show ?case
  proof (cases sg)
    case (Key k)
    then obtain fs where v: "v = JObj fs" using Cons.prems by (cases v) simp_all
    then obtain x where x: "map_of fs k = Some x" "getAt rest x = Some d"
      using Cons.prems Key by (auto split: option.splits)
    from map_of_split [OF x(1)] obtain as bs where
      fs: "fs = as @ (k, x) # bs" "k \<notin> fst ` set as" by blast
    have c: "compound x \<and> compound (putAt rest new x)"
      using putAt_compound [OF x(2) assms(3) assms(2)] .
    have r: "isReference (JObj (updateKey k (putAt rest new) fs)) = isReference (JObj fs)"
      using isReference_updateKey [OF x(1), of "putAt rest new"] c by simp
    have "descriptorsOfKeys (updateKey k (putAt rest new) fs) = descriptorsOfKeys fs"
      unfolding fs(1) updateKey_split [OF fs(2)]
      by (simp add: descriptorsOfKeys_append Cons.IH [OF x(2)])
    then show ?thesis unfolding Key v using r by simp
  next
    case (Index i)
    then obtain xs where v: "v = JArr xs" using Cons.prems by (cases v) simp_all
    then have i: "i < length xs" "getAt rest (xs ! i) = Some d"
      using Cons.prems Index by (auto split: if_splits)
    have "descriptorsOfItems (xs[i := putAt rest new (xs ! i)]) = descriptorsOfItems xs"
    proof -
      have a: "xs = take i xs @ xs ! i # drop (Suc i) xs"
        using i(1) by (simp add: id_take_nth_drop)
      have b: "xs[i := putAt rest new (xs ! i)]
               = take i xs @ putAt rest new (xs ! i) # drop (Suc i) xs"
        using i(1) by (simp add: upd_conv_take_nth_drop)
      have "descriptorsOfItems xs = descriptorsOfItems (take i xs)
          + (descriptors (xs ! i) + descriptorsOfItems (drop (Suc i) xs))"
        by (metis a descriptorsOfItems_append descriptorsOfItems.simps(2))
      then show ?thesis unfolding b
        by (simp add: descriptorsOfItems_append Cons.IH [OF i(2)])
    qed
    then show ?thesis unfolding Index v using i(1) by simp
  qed
qed

lemma descriptor_facts:
  assumes "descriptors doc = 1" and "getAt segs doc = Some d" and "isReference d"
  shows "compound d" and "truthy (getProp d ''_ref'')" and "descriptors d = 1"
    and "descriptors (getProp d ''_ref'') = 0"
proof -
  from assms(3) obtain fs where d: "d = JObj fs" by (rule isReference_cases)
  show "compound d" unfolding d by simp
  show t: "truthy (getProp d ''_ref'')" using assms(3) by (simp add: isReference_def)
  show d1: "descriptors d = 1"
    using descriptors_isReference [OF assms(3)] getAt_descriptors(1) [OF assms(2)] assms(1)
    by simp
  from t obtain r where r: "map_of fs ''_ref'' = Some r" "getProp d ''_ref'' = r"
    unfolding d by (cases "map_of fs ''_ref''") simp_all
  then have "getAt [Key ''_ref''] d = Some r" unfolding d by simp
  from getAt_descriptors(2) [OF this] have "descriptors r \<le> inner d" by simp
  moreover have "inner d = 0" using d1 assms(3) unfolding d by simp
  ultimately show "descriptors (getProp d ''_ref'') = 0" using r(2) by simp
qed

lemma weakValue_facts:
  assumes "truthy r" and "descriptors r = 0"
  shows "compound (weakValue r)" and "descriptors (weakValue r) = 1"
    and "emitted WeakToStrong (weakValue r)"
    and "occurrenceOf WeakToStrong p (weakValue r)
         = \<lparr>path = p, type = Weak, ref = r, weak = JBool True\<rparr>"
  using assms
  by (simp_all add: weakValue_def isReference_def emitted_def markedWeak_def occurrenceOf_def)

lemma strongValue_facts:
  assumes "truthy r" and "descriptors r = 0"
  shows "compound (strongValue r)" and "descriptors (strongValue r) = 1"
    and "emitted StrongToWeak (strongValue r)"
    and "occurrenceOf StrongToWeak p (strongValue r)
         = \<lparr>path = p, type = Strong, ref = r, weak = JBool False\<rparr>"
  using assms
  by (simp_all add: strongValue_def isReference_def emitted_def occurrenceOf_def jsOr_def)

lemma buildPatches_one:
  "buildPatches StrongToWeak [\<lparr>path = p, type = k, ref = r, weak = w\<rparr>] = [(p, weakValue r)]"
  "buildPatches WeakToStrong [\<lparr>path = p, type = k, ref = r, weak = w\<rparr>] = [(p, strongValue r)]"
  by (simp_all add: buildPatches_def weakValue_def strongValue_def)

text \<open>
  C2, as the code has it. Take a document that contains exactly one reference
  descriptor, with no truthy weak marker, and let the descriptor be the value of a
  property (the last step to it is a key; the steps before may be keys and indices).
  A strong-to-weak scan yields exactly one occurrence: its path names the place, its kind
  is strong, \<^verbatim>\<open>weak\<close> is \<^verbatim>\<open>false\<close>. The patch built for it sets
  \<^verbatim>\<open>{_type: 'reference', _ref, _weak: true}\<close> at that path. Over the document that has
  this value at the place, a weak-to-strong scan yields exactly one occurrence, of kind
  weak, and not none. The patch built for that one sets \<^verbatim>\<open>{_type: 'reference', _ref}\<close>,
  with no \<^verbatim>\<open>_weak\<close> field; the document that has this value at the place has it as
  its descriptor, scans strong-to-weak as the original did, and is the original when the
  original descriptor had the fields \<^verbatim>\<open>_type\<close> and \<^verbatim>\<open>_ref\<close> and no other. The store
  is outside the repository: the property is about the documents that have the value of
  a patch at the place its path names.
\<close>

theorem weak_then_strong_round_trip:
  assumes "descriptors doc = 1" and "getAt segs doc = Some d" and "isReference d"
    and "\<not> markedWeak d" and "segs \<noteq> []" and "isKey (last segs)"
  shows
    "findReferences doc StrongToWeak ''''
       = [\<lparr>path = renderFrom '''' segs, type = Strong, ref = getProp d ''_ref'',
           weak = JBool False\<rparr>]
     \<and> buildPatches StrongToWeak (findReferences doc StrongToWeak '''')
       = [(renderFrom '''' segs, weakValue (getProp d ''_ref''))]
     \<and> findReferences (putAt segs (weakValue (getProp d ''_ref'')) doc) WeakToStrong ''''
       = [\<lparr>path = renderFrom '''' segs, type = Weak, ref = getProp d ''_ref'',
           weak = JBool True\<rparr>]
     \<and> buildPatches WeakToStrong
         (findReferences (putAt segs (weakValue (getProp d ''_ref'')) doc) WeakToStrong '''')
       = [(renderFrom '''' segs, strongValue (getProp d ''_ref''))]
     \<and> getAt segs (putAt segs (strongValue (getProp d ''_ref''))
                     (putAt segs (weakValue (getProp d ''_ref'')) doc))
       = Some (JObj [(''_type'', JStr ''reference''), (''_ref'', getProp d ''_ref'')])
     \<and> findReferences (putAt segs (strongValue (getProp d ''_ref''))
                         (putAt segs (weakValue (getProp d ''_ref'')) doc)) StrongToWeak ''''
       = findReferences doc StrongToWeak ''''
     \<and> (d = JObj [(''_type'', JStr ''reference''), (''_ref'', getProp d ''_ref'')]
        \<longrightarrow> putAt segs (strongValue (getProp d ''_ref''))
              (putAt segs (weakValue (getProp d ''_ref'')) doc) = doc)"
proof -
  define r where "r = getProp d ''_ref''"
  define doc1 where "doc1 = putAt segs (weakValue r) doc"
  define doc2 where "doc2 = putAt segs (strongValue r) doc1"
  note df = descriptor_facts [OF assms(1-3), folded r_def]
  note wf = weakValue_facts [OF df(2) df(4)]
  note sf = strongValue_facts [OF df(2) df(4)]
  have e: "emitted StrongToWeak d" using assms(3) by (simp add: emitted_def)
  have o: "occurrenceOf StrongToWeak p d
           = \<lparr>path = p, type = Strong, ref = r, weak = JBool False\<rparr>" for p
    using assms(4) by (simp add: occurrenceOf_def markedWeak_def jsOr_def r_def)
  have 1: "findReferences doc StrongToWeak ''''
       = [\<lparr>path = renderFrom '''' segs, type = Strong, ref = r, weak = JBool False\<rparr>]"
    using only_descriptor [OF assms(1) assms(2) e assms(5) assms(6), of "''''"]
    unfolding o .
  have 2: "buildPatches StrongToWeak (findReferences doc StrongToWeak '''')
       = [(renderFrom '''' segs, weakValue r)]"
    unfolding 1 by (rule buildPatches_one(1))
  have g1: "getAt segs doc1 = Some (weakValue r)"
    unfolding doc1_def using getAt_putAt [OF assms(2)] .
  have c1: "descriptors doc1 = 1"
    unfolding doc1_def
    using descriptors_putAt [OF assms(2) df(1) wf(1), of ] wf(2) df(3) assms(1) by simp
  have 3: "findReferences doc1 WeakToStrong ''''
       = [\<lparr>path = renderFrom '''' segs, type = Weak, ref = r, weak = JBool True\<rparr>]"
    using only_descriptor [OF c1 g1 wf(3) assms(5) assms(6), of "''''"]
    unfolding wf(4) .
  have 4: "buildPatches WeakToStrong (findReferences doc1 WeakToStrong '''')
       = [(renderFrom '''' segs, strongValue r)]"
    unfolding 3 by (rule buildPatches_one(2))
  have g2: "getAt segs doc2 = Some (strongValue r)"
    unfolding doc2_def using getAt_putAt [OF g1] .
  have c2: "descriptors doc2 = 1"
    unfolding doc2_def
    using descriptors_putAt [OF g1 wf(1) sf(1)] wf(2) sf(2) c1 by simp
  have 5: "getAt segs doc2 = Some (JObj [(''_type'', JStr ''reference''), (''_ref'', r)])"
    using g2 by (simp add: strongValue_def)
  have 6: "findReferences doc2 StrongToWeak '''' = findReferences doc StrongToWeak ''''"
    using only_descriptor [OF c2 g2 sf(3) assms(5) assms(6), of "''''"]
    unfolding sf(4) 1 .
  have 7: "d = JObj [(''_type'', JStr ''reference''), (''_ref'', r)] \<longrightarrow> doc2 = doc"
  proof
    assume "d = JObj [(''_type'', JStr ''reference''), (''_ref'', r)]"
    then have d: "d = strongValue r" by (simp add: strongValue_def)
    have "doc2 = putAt segs (strongValue r) doc"
      unfolding doc2_def doc1_def by (rule putAt_twice [OF assms(2)])
    also have "\<dots> = doc" using putAt_same [OF assms(2)] unfolding d .
    finally show "doc2 = doc" .
  qed
  show ?thesis
    using 1 2 3 4 5 6 7 unfolding doc2_def doc1_def r_def
    by (intro conjI)
qed

theorem weak_then_strong_round_trip_witness:
  "findReferences nestedDocument StrongToWeak ''''
     = [\<lparr>path = ''body[1].linked'', type = Strong, ref = JStr ''p'', weak = JBool False\<rparr>]
   \<and> buildPatches StrongToWeak (findReferences nestedDocument StrongToWeak '''')
     = [(''body[1].linked'',
         JObj [(''_type'', JStr ''reference''), (''_ref'', JStr ''p''), (''_weak'', JBool True)])]
   \<and> findReferences
       (JObj [(''_id'', JStr ''doc-9''),
              (''body'', JArr [JObj [(''n'', JNum 1)],
                 JObj [(''linked'', JObj [(''_type'', JStr ''reference''),
                    (''_ref'', JStr ''p''), (''_weak'', JBool True)])]])])
       WeakToStrong ''''
     = [\<lparr>path = ''body[1].linked'', type = Weak, ref = JStr ''p'', weak = JBool True\<rparr>]
   \<and> putAt [Key ''body'', Index 1, Key ''linked''] (strongValue (JStr ''p''))
       (putAt [Key ''body'', Index 1, Key ''linked''] (weakValue (JStr ''p'')) nestedDocument)
     = nestedDocument"
proof -
  let ?d = "JObj [(''_type'', JStr ''reference''), (''_ref'', JStr ''p'')]"
  let ?segs = "[Key ''body'', Index 1, Key ''linked'']"
  have h1: "descriptors nestedDocument = 1"
    by (simp add: nestedDocument_def isReference_def)
  have h2: "getAt ?segs nestedDocument = Some ?d"
    by (simp add: nestedDocument_def)
  have h3: "isReference ?d"
    by (simp add: isReference_def)
  have h4: "\<not> markedWeak ?d"
    by (simp add: markedWeak_def)
  have h5: "?segs \<noteq> []"
    by simp
  have h6: "isKey (last ?segs)"
    by simp
  note inst = weak_then_strong_round_trip [OF h1 h2 h3 h4 h5 h6]
  have r: "getProp ?d ''_ref'' = JStr ''p''"
    by simp
  have p: "renderFrom '''' ?segs = ''body[1].linked''"
    by (simp add: currentPath_def showNat.simps digitChar_def)
  have w: "putAt ?segs (weakValue (JStr ''p'')) nestedDocument
           = JObj [(''_id'', JStr ''doc-9''),
              (''body'', JArr [JObj [(''n'', JNum 1)],
                 JObj [(''linked'', JObj [(''_type'', JStr ''reference''),
                    (''_ref'', JStr ''p''), (''_weak'', JBool True)])]])]"
    by (simp add: nestedDocument_def weakValue_def)
  have v: "weakValue (JStr ''p'')
           = JObj [(''_type'', JStr ''reference''), (''_ref'', JStr ''p''), (''_weak'', JBool True)]"
    by (simp add: weakValue_def)
  note a = inst [THEN conjunct1, unfolded r p]
  note b = inst [THEN conjunct2, THEN conjunct1, unfolded r p v]
  note c = inst [THEN conjunct2, THEN conjunct2, THEN conjunct1, unfolded r p w]
  have e: "?d = JObj [(''_type'', JStr ''reference''), (''_ref'', getProp ?d ''_ref'')]"
    by simp
  note f = inst [THEN conjunct2, THEN conjunct2, THEN conjunct2, THEN conjunct2,
      THEN conjunct2, THEN conjunct2, THEN mp, OF e, unfolded r]
  show ?thesis by (intro conjI a b c f)
qed

text \<open>
  C2 as the claim states it fails twice. A descriptor that is directly an element of an
  array is the only descriptor of its document and is not found: the scan tests the
  values of properties only, and of an array element it visits the properties. And over
  the document that has the weak value at \<^verbatim>\<open>author\<close>, the weak-to-strong scan yields one
  occurrence, not none.
\<close>

theorem weak_scan_after_patch_counterexample:
  "descriptors listedDocument = 1
   \<and> getAt [Key ''authors'', Index 0] listedDocument
       = Some (JObj [(''_type'', JStr ''reference''), (''_ref'', JStr ''p'')])
   \<and> findReferences listedDocument StrongToWeak '''' = []
   \<and> findReferences (sampleDocument ''doc-1'') StrongToWeak ''''
       = [\<lparr>path = ''author'', type = Strong, ref = JStr ''person-1'', weak = JBool False\<rparr>]
   \<and> findReferences
       (JObj [(''_id'', JStr ''doc-1''), (''_type'', JStr ''post''),
              (''author'', JObj [(''_type'', JStr ''reference''), (''_ref'', JStr ''person-1''),
                 (''_weak'', JBool True)])])
       WeakToStrong ''''
       = [\<lparr>path = ''author'', type = Weak, ref = JStr ''person-1'', weak = JBool True\<rparr>]"
proof -
  have 1: "descriptors listedDocument = 1"
    by (simp add: listedDocument_def isReference_def)
  have 2: "getAt [Key ''authors'', Index 0] listedDocument
       = Some (JObj [(''_type'', JStr ''reference''), (''_ref'', JStr ''p'')])"
    by (simp add: listedDocument_def)
  have 3: "findReferences listedDocument StrongToWeak '''' = []"
    by (simp add: listedDocument_def forEachKey_Cons emitted_def isReference_def)
  have 4: "findReferences (sampleDocument ''doc-1'') StrongToWeak ''''
       = [\<lparr>path = ''author'', type = Strong, ref = JStr ''person-1'', weak = JBool False\<rparr>]"
    by (simp add: sampleDocument_def forEachKey_Cons emitted_def isReference_def
        occurrenceOf_def currentPath_def jsOr_def)
  have 5: "findReferences
       (JObj [(''_id'', JStr ''doc-1''), (''_type'', JStr ''post''),
              (''author'', JObj [(''_type'', JStr ''reference''), (''_ref'', JStr ''person-1''),
                 (''_weak'', JBool True)])])
       WeakToStrong ''''
       = [\<lparr>path = ''author'', type = Weak, ref = JStr ''person-1'', weak = JBool True\<rparr>]"
    by (simp add: forEachKey_Cons emitted_def isReference_def markedWeak_def
        occurrenceOf_def currentPath_def)
  show ?thesis by (intro conjI 1 2 3 4 5)
qed

section \<open>Properties of the conversion pipeline\<close>

lemma commitsOf_append [simp]: "commitsOf (xs @ ys) = commitsOf xs @ commitsOf ys"
  by (induction xs rule: commitsOf.induct) simp_all

lemma completions_append [simp]: "completions (xs @ ys) = completions xs @ completions ys"
  by (induction xs rule: completions.induct) simp_all

lemma failures_append [simp]: "failures (xs @ ys) = failures xs @ failures ys"
  by (induction xs rule: failures.induct) simp_all

lemma processItem_settle:
  assumes "dryRun \<or> \<not> nullish (document g)"
  shows "\<exists>st'. processItem c dryRun t g st = Inr st'
           \<and> (result st', store st') = settle c dryRun t g (result st, store st)
           \<and> trace st' = trace st @ (if dryRun then [] else [case callOf t g of (d, ps) \<Rightarrow> Commit d ps])"
proof (cases dryRun)
  case True
  then show ?thesis by (simp add: processItem_def settle_def)
next
  case False
  then have nn: "\<not> nullish (document g)" using assms by simp
  obtain out s' where cm: "commit c (store st) (getProp (document g) ''_id'')
       (buildPatches t (references g)) = (out, s')"
    by (cases "commit c (store st) (getProp (document g) ''_id'') (buildPatches t (references g))")
  show ?thesis
  proof (cases out)
    case None
    then show ?thesis using False nn cm
      by (simp add: processItem_def settle_def callOf_def Let_def)
  next
    case (Some e)
    then show ?thesis using False nn cm
      by (simp add: processItem_def settle_def callOf_def Let_def)
  qed
qed

lemma forOfBatch_settle:
  assumes "dryRun \<or> (\<forall>g \<in> set gs. \<not> nullish (document g))"
  shows "\<exists>st'. forOfBatch c dryRun t gs st = Inr st'
           \<and> (result st', store st') = fold (settle c dryRun t) gs (result st, store st)
           \<and> trace st' = trace st
                @ (if dryRun then [] else map (\<lambda>g. case callOf t g of (d, ps) \<Rightarrow> Commit d ps) gs)"
  using assms
proof (induction gs arbitrary: st)
  case Nil
  then show ?case by simp
next
  case (Cons g gs)
  from Cons.prems have "dryRun \<or> \<not> nullish (document g)" by auto
  from processItem_settle [OF this, of c t st] obtain st1 where
    p: "processItem c dryRun t g st = Inr st1"
    and r: "(result st1, store st1) = settle c dryRun t g (result st, store st)"
    and tr: "trace st1 = trace st @ (if dryRun then [] else [case callOf t g of (d, ps) \<Rightarrow> Commit d ps])"
    by blast
  from Cons.prems have "dryRun \<or> (\<forall>g \<in> set gs. \<not> nullish (document g))" by auto
  from Cons.IH [OF this, of st1] obtain st2 where
    f: "forOfBatch c dryRun t gs st1 = Inr st2"
    and r2: "(result st2, store st2) = fold (settle c dryRun t) gs (result st1, store st1)"
    and tr2: "trace st2 = trace st1
                @ (if dryRun then [] else map (\<lambda>g. case callOf t g of (d, ps) \<Rightarrow> Commit d ps) gs)"
    by blast
  show ?case
    using p f r r2 tr tr2 by simp
qed

lemma runBatches_settle:
  assumes "dryRun \<or> (\<forall>g \<in> set (concat bs). \<not> nullish (document g))"
  shows "\<exists>st'. runBatches c dryRun t len bs st = Inr st'
           \<and> (result st', store st')
               = fold (settle c dryRun t) (concat bs) (result st, store st)
           \<and> commitsOf (trace st') = commitsOf (trace st)
                @ (if dryRun then [] else map (callOf t) (concat bs))
           \<and> completions (trace st') = completions (trace st)
           \<and> failures (trace st') = failures (trace st)"
  using assms
proof (induction bs arbitrary: st)
  case Nil
  then show ?case by simp
next
  case (Cons b bs)
  from Cons.prems have "dryRun \<or> (\<forall>g \<in> set b. \<not> nullish (document g))" by auto
  from forOfBatch_settle [OF this, of c t st] obtain st1 where
    f: "forOfBatch c dryRun t b st = Inr st1"
    and r: "(result st1, store st1) = fold (settle c dryRun t) b (result st, store st)"
    and tr: "trace st1 = trace st
                @ (if dryRun then [] else map (\<lambda>g. case callOf t g of (d, ps) \<Rightarrow> Commit d ps) b)"
    by blast
  define st2 where "st2 = st1\<lparr>trace := trace st1 @
               [SetMessage (progressMessage dryRun (converted (result st1)) len)]\<rparr>"
  have cs: "commitsOf (map (\<lambda>g. case callOf t g of (d, ps) \<Rightarrow> Commit d ps) b) = map (callOf t) b"
    by (induction b) (simp_all split: prod.splits)
  have cp: "completions (map (\<lambda>g. case callOf t g of (d, ps) \<Rightarrow> Commit d ps) b) = []"
    by (induction b) (simp_all split: prod.splits)
  have fl: "failures (map (\<lambda>g. case callOf t g of (d, ps) \<Rightarrow> Commit d ps) b) = []"
    by (induction b) (simp_all split: prod.splits)
  have st2: "result st2 = result st1" "store st2 = store st1"
    "commitsOf (trace st2) = commitsOf (trace st) @ (if dryRun then [] else map (callOf t) b)"
    "completions (trace st2) = completions (trace st)"
    "failures (trace st2) = failures (trace st)"
    using tr cs cp fl by (simp_all add: st2_def)
  from Cons.prems have "dryRun \<or> (\<forall>g \<in> set (concat bs). \<not> nullish (document g))" by auto
  from Cons.IH [OF this, of st2] obtain st3 where
    rb: "runBatches c dryRun t len bs st2 = Inr st3"
    and r3: "(result st3, store st3)
               = fold (settle c dryRun t) (concat bs) (result st2, store st2)"
    and c3: "commitsOf (trace st3) = commitsOf (trace st2)
                @ (if dryRun then [] else map (callOf t) (concat bs))"
    and p3: "completions (trace st3) = completions (trace st2)"
    and f3: "failures (trace st3) = failures (trace st2)"
    by blast
  have "runBatches c dryRun t len (b # bs) st = Inr st3"
    using f rb by (simp add: st2_def)
  moreover have "(result st3, store st3)
      = fold (settle c dryRun t) (concat (b # bs)) (result st, store st)"
    using r3 r st2 by simp
  moreover have "commitsOf (trace st3) = commitsOf (trace st)
                @ (if dryRun then [] else map (callOf t) (concat (b # bs)))"
    using c3 st2 by simp
  ultimately show ?case using p3 f3 st2 by simp
qed

lemma slice_take_drop:
  "slice xs (int k) (int k + int n) = take n (drop k xs)"
proof (cases "k \<le> length xs")
  case True
  then have k: "nat (min (int k) (int (length xs))) = k" by simp
  have "nat (min (int k + int n) (int (length xs)) - min (int k) (int (length xs)))
        = min n (length xs - k)"
    using True by (simp add: min_def) linarith
  then have "slice xs (int k) (int k + int n) = take (min n (length xs - k)) (drop k xs)"
    using k by (simp add: slice_def Let_def)
  also have "\<dots> = take n (drop k xs)"
    by (simp add: min_def)
  finally show ?thesis .
next
  case False
  then have "drop k xs = []" by simp
  moreover have "nat (min (int k) (int (length xs))) = length xs" using False by simp
  ultimately show ?thesis by (simp add: slice_def Let_def)
qed

lemma batchesOf_Nil [simp]: "batchesOf n [] = []"
  by (simp add: batchesOf.simps)

lemma batchesOf_step: "0 < n \<Longrightarrow> xs \<noteq> [] \<Longrightarrow> batchesOf n xs = take n xs # batchesOf n (drop n xs)"
  by (subst batchesOf.simps) simp

lemma batchLoop_batches:
  assumes "0 < n"
  shows "batchLoop c dryRun t refs (int n) (int k) st
         = Some (runBatches c dryRun t (length refs) (batchesOf n (drop k refs)) st)"
proof (induction "length refs - k" arbitrary: k st rule: less_induct)
  case less
  show ?case
  proof (cases "k < length refs")
    case False
    then show ?thesis by (subst batchLoop.simps) simp
  next
    case True
    then have ne: "drop k refs \<noteq> []" by simp
    have dd: "drop n (drop k refs) = drop (k + n) refs" by (simp add: add.commute)
    have step: "length refs - (k + n) < length refs - k" using True assms by simp
    have ik: "int k + int n = int (k + n)" by simp
    show ?thesis
      apply (subst batchLoop.simps)
      apply (simp only: slice_take_drop batchesOf_step [OF assms ne] dd)
      apply (simp only: ik less.hyps [OF step])
      using True by (simp split: sum.splits)
  qed
qed

lemma concat_batchesOf: "0 < n \<Longrightarrow> concat (batchesOf n xs) = xs"
proof (induction "length xs" arbitrary: xs rule: less_induct)
  case less
  show ?case
  proof (cases "xs = []")
    case True
    then show ?thesis by simp
  next
    case False
    then have "length (drop n xs) < length xs" using less.prems by simp
    from less.hyps [OF this less.prems] show ?thesis
      using False less.prems by (simp add: batchesOf_step)
  qed
qed

lemma batchesOf_sizes:
  "0 < n \<Longrightarrow> b \<in> set (batchesOf n xs) \<Longrightarrow> 0 < length b \<and> length b \<le> n"
proof (induction "length xs" arbitrary: xs rule: less_induct)
  case less
  show ?case
  proof (cases "xs = []")
    case True
    then show ?thesis using less.prems by simp
  next
    case False
    then have l: "length (drop n xs) < length xs" using less.prems by simp
    from less.prems False have "b = take n xs \<or> b \<in> set (batchesOf n (drop n xs))"
      by (simp add: batchesOf_step)
    then show ?thesis
    proof
      assume "b = take n xs"
      then show ?thesis using False less.prems by simp
    next
      assume "b \<in> set (batchesOf n (drop n xs))"
      from less.hyps [OF l less.prems(1) this] show ?thesis .
    qed
  qed
qed

lemma batchesOf_full:
  "0 < n \<Longrightarrow> b \<in> set (butlast (batchesOf n xs)) \<Longrightarrow> length b = n"
proof (induction "length xs" arbitrary: xs rule: less_induct)
  case less
  show ?case
  proof (cases "xs = []")
    case True
    then show ?thesis using less.prems by simp
  next
    case False
    then have l: "length (drop n xs) < length xs" using less.prems by simp
    show ?thesis
    proof (cases "drop n xs = []")
      case True
      then show ?thesis using less.prems False by (simp add: batchesOf_step)
    next
      case d: False
      then have "batchesOf n (drop n xs) \<noteq> []" using less.prems(1) by (simp add: batchesOf_step)
      with less.prems False have "b = take n xs \<or> b \<in> set (butlast (batchesOf n (drop n xs)))"
        by (simp add: batchesOf_step)
      then show ?thesis
      proof
        assume "b = take n xs"
        then show ?thesis using d by simp
      next
        assume "b \<in> set (butlast (batchesOf n (drop n xs)))"
        from less.hyps [OF l less.prems(1) this] show ?thesis .
      qed
    qed
  qed
qed

lemma batchesOf_25_10:
  assumes "length xs = 25"
  shows "map length (batchesOf 10 xs) = [10, 10, 5]"
proof -
  have 1: "xs \<noteq> []" using assms by auto
  have 2: "drop 10 xs \<noteq> []" using assms by auto
  have 3: "drop 10 (drop 10 xs) \<noteq> []" using assms by auto
  have 4: "drop 10 (drop 10 (drop 10 xs)) = []" using assms by auto
  have "batchesOf 10 xs = [take 10 xs, take 10 (drop 10 xs), take 10 (drop 10 (drop 10 xs))]"
    using batchesOf_step [OF _ 1, of 10] batchesOf_step [OF _ 2, of 10] batchesOf_step [OF _ 3, of 10] 4
    by simp
  then show ?thesis using assms by simp
qed

lemma fold_settle_dry:
  "fold (settle c True t) gs (res, s)
   = (res\<lparr>converted := converted res + length gs,
          spaceSaved := spaceSaved res + spaceOf t gs\<rparr>, s)"
proof (induction gs arbitrary: res)
  case Nil
  then show ?case by (simp add: spaceOf_def)
next
  case (Cons g gs)
  have step: "settle c True t g (res, s) = (countConverted t g res, s)"
    by (simp add: settle_def)
  have "fold (settle c True t) (g # gs) (res, s)
        = fold (settle c True t) gs (countConverted t g res, s)"
    by (simp only: fold_simps step)
  also have "\<dots> = ((countConverted t g res)\<lparr>converted := converted (countConverted t g res)
          + length gs, spaceSaved := spaceSaved (countConverted t g res) + spaceOf t gs\<rparr>, s)"
    by (rule Cons.IH)
  also have "\<dots> = (res\<lparr>converted := converted res + length (g # gs),
          spaceSaved := spaceSaved res + spaceOf t (g # gs)\<rparr>, s)"
    by (simp add: countConverted_def spaceOf_def)
  finally show ?case .
qed

lemma fold_settle_run:
  "fst (fold (settle c False t) gs (res, s))
   = res\<lparr>converted := converted res + length (succeeded gs (outcomes c t gs s)),
          errors := errors res @ failed gs (outcomes c t gs s),
          spaceSaved := spaceSaved res + spaceOf t (succeeded gs (outcomes c t gs s))\<rparr>"
proof (induction gs arbitrary: res s)
  case Nil
  then show ?case by (simp add: spaceOf_def)
next
  case (Cons g gs)
  obtain out s' where cm: "commit c s (fst (callOf t g)) (snd (callOf t g)) = (out, s')"
    by (cases "commit c s (fst (callOf t g)) (snd (callOf t g))")
  show ?case
  proof (cases out)
    case None
    have step: "settle c False t g (res, s) = (countConverted t g res, s')"
      using cm None by (simp add: settle_def)
    have os: "outcomes c t (g # gs) s = None # outcomes c t gs s'"
      using cm None by simp
    have "fst (fold (settle c False t) (g # gs) (res, s))
          = fst (fold (settle c False t) gs (countConverted t g res, s'))"
      by (simp only: fold_simps step)
    also have "\<dots> = (countConverted t g res)\<lparr>converted := converted (countConverted t g res)
            + length (succeeded gs (outcomes c t gs s')),
          errors := errors (countConverted t g res) @ failed gs (outcomes c t gs s'),
          spaceSaved := spaceSaved (countConverted t g res)
            + spaceOf t (succeeded gs (outcomes c t gs s'))\<rparr>"
      by (rule Cons.IH)
    also have "\<dots> = res\<lparr>converted := converted res
            + length (succeeded (g # gs) (outcomes c t (g # gs) s)),
          errors := errors res @ failed (g # gs) (outcomes c t (g # gs) s),
          spaceSaved := spaceSaved res
            + spaceOf t (succeeded (g # gs) (outcomes c t (g # gs) s))\<rparr>"
      unfolding os by (simp add: countConverted_def spaceOf_def)
    finally show ?thesis .
  next
    case (Some e)
    define res1 where "res1 = res\<lparr>errors := errors res @ [failureMessage g e]\<rparr>"
    have step: "settle c False t g (res, s) = (res1, s')"
      using cm Some by (simp add: settle_def res1_def)
    have os: "outcomes c t (g # gs) s = Some e # outcomes c t gs s'"
      using cm Some by simp
    have "fst (fold (settle c False t) (g # gs) (res, s))
          = fst (fold (settle c False t) gs (res1, s'))"
      by (simp only: fold_simps step)
    also have "\<dots> = res1\<lparr>converted := converted res1
            + length (succeeded gs (outcomes c t gs s')),
          errors := errors res1 @ failed gs (outcomes c t gs s'),
          spaceSaved := spaceSaved res1 + spaceOf t (succeeded gs (outcomes c t gs s'))\<rparr>"
      by (rule Cons.IH)
    also have "\<dots> = res\<lparr>converted := converted res
            + length (succeeded (g # gs) (outcomes c t (g # gs) s)),
          errors := errors res @ failed (g # gs) (outcomes c t (g # gs) s),
          spaceSaved := spaceSaved res
            + spaceOf t (succeeded (g # gs) (outcomes c t (g # gs) s))\<rparr>"
      unfolding os by (simp add: res1_def)
    finally show ?thesis .
  qed
qed

lemma length_outcomes [simp]: "length (outcomes c t gs s) = length gs"
  by (induction gs arbitrary: s) (simp_all split: prod.splits)

lemma succeeded_all:
  "length os = length gs \<Longrightarrow> \<forall>out \<in> set os. out = None \<Longrightarrow>
   succeeded gs os = gs \<and> failed gs os = []"
  by (induction os gs rule: list_induct2) simp_all

lemma succeeded_append:
  "length os = length gs \<Longrightarrow>
   succeeded (gs @ hs) (os @ ps) = succeeded gs os @ succeeded hs ps"
  by (induction gs os rule: succeeded.induct) simp_all

lemma failed_append:
  "length os = length gs \<Longrightarrow> failed (gs @ hs) (os @ ps) = failed gs os @ failed hs ps"
  by (induction gs os rule: failed.induct) simp_all

lemma one_failure:
  assumes "os = replicate (length before) None @ [Some e] @ replicate (length after) None"
  shows "succeeded (before @ [g] @ after) os = before @ after"
    and "failed (before @ [g] @ after) os = [failureMessage g e]"
proof -
  have b: "succeeded before (replicate (length before) None) = before
           \<and> failed before (replicate (length before) None) = []"
    by (rule succeeded_all) simp_all
  have a: "succeeded after (replicate (length after) None) = after
           \<and> failed after (replicate (length after) None) = []"
    by (rule succeeded_all) simp_all
  show "succeeded (before @ [g] @ after) os = before @ after"
    unfolding assms using a b by (simp add: succeeded_append)
  show "failed (before @ [g] @ after) os = [failureMessage g e]"
    unfolding assms using a b by (simp add: failed_append)
qed

lemma slice_subset: "set (slice xs a b) \<subseteq> set xs"
proof -
  have "set (take m (drop k xs)) \<subseteq> set xs" for m k
    by (meson set_take_subset set_drop_subset subset_trans)
  then show ?thesis by (simp add: slice_def Let_def)
qed

lemma batchLoop_stuck:
  assumes "batchLoop c dryRun t refs batchSize i st = Some y"
  shows "\<not> (batchSize \<le> 0 \<and> i \<le> 0 \<and> refs \<noteq> []
            \<and> (dryRun \<or> (\<forall>g \<in> set refs. \<not> nullish (document g))))"
proof (rule batchLoop.raw_induct
    [where P = "\<lambda>c dryRun t refs batchSize i st y.
       \<not> (batchSize \<le> 0 \<and> i \<le> 0 \<and> refs \<noteq> []
            \<and> (dryRun \<or> (\<forall>g \<in> set refs. \<not> nullish (document g))))", OF _ assms])
  fix loop :: "'s client \<Rightarrow> bool \<Rightarrow> mode \<Rightarrow> group list \<Rightarrow> int \<Rightarrow> int \<Rightarrow> 's run
      \<Rightarrow> ((thrown \<times> 's run) + 's run) option"
  fix c dryRun t refs batchSize i st y
  assume IH: "\<And>c dryRun t refs batchSize i st y.
      loop c dryRun t refs batchSize i st = Some y \<Longrightarrow>
      \<not> (batchSize \<le> 0 \<and> i \<le> 0 \<and> refs \<noteq> []
            \<and> (dryRun \<or> (\<forall>g \<in> set refs. \<not> nullish (document g))))"
  assume eq: "(if i < int (length refs) then
        (case forOfBatch c dryRun t (slice refs i (i + batchSize)) st of
           Inl e \<Rightarrow> Some (Inl e)
         | Inr st' \<Rightarrow>
             loop c dryRun t refs batchSize (i + batchSize)
               (st'\<lparr>trace := trace st' @
                  [SetMessage (progressMessage dryRun (converted (result st'))
                     (length refs))]\<rparr>))
      else Some (Inr st)) = Some y"
  show "\<not> (batchSize \<le> 0 \<and> i \<le> 0 \<and> refs \<noteq> []
            \<and> (dryRun \<or> (\<forall>g \<in> set refs. \<not> nullish (document g))))"
  proof
    assume pre: "batchSize \<le> 0 \<and> i \<le> 0 \<and> refs \<noteq> []
            \<and> (dryRun \<or> (\<forall>g \<in> set refs. \<not> nullish (document g)))"
    then have lt: "i < int (length refs)" by (cases refs) simp_all
    have "dryRun \<or> (\<forall>g \<in> set (slice refs i (i + batchSize)). \<not> nullish (document g))"
      using pre slice_subset [of refs i "i + batchSize"] by blast
    from forOfBatch_settle [OF this, of c t st] obtain st1 where
      f: "forOfBatch c dryRun t (slice refs i (i + batchSize)) st = Inr st1" by blast
    from eq lt f have
      "loop c dryRun t refs batchSize (i + batchSize)
         (st1\<lparr>trace := trace st1 @
            [SetMessage (progressMessage dryRun (converted (result st1)) (length refs))]\<rparr>)
       = Some y"
      by simp
    from IH [OF this] pre show False by simp
  qed
qed

lemma convertReferences_start:
  "groups \<noteq> [] \<Longrightarrow>
   convertReferences (Some c) groups batchSize dryRun t s =
     (case batchLoop c dryRun t groups batchSize 0 (startRun s) of
        None \<Rightarrow> None
      | Some (Inr st) \<Rightarrow>
          Some (trace st @
            [SetMessage ((if dryRun then ''Dry run complete'' else ''Conversion complete'')
               @ '': '' @ showNat (converted (result st)) @ '' documents processed''),
             OnComplete (result st),
             SetIsLoading False], store st)
      | Some (Inl (e, st)) \<Rightarrow>
          Some (trace st @
            [SetMessage (''Conversion error: '' @ errorMessage e ''Conversion failed''),
             OnError (errorMessage e ''Conversion failed''),
             SetIsLoading False], store st))"
  by (simp add: convertReferences_def startRun_def)

lemma startRun_simps [simp]:
  "result (startRun s) = \<lparr>converted = 0, errors = [], spaceSaved = 0\<rparr>"
  "store (startRun s) = s"
  "commitsOf (trace (startRun s)) = []"
  "completions (trace (startRun s)) = []"
  "failures (trace (startRun s)) = []"
  by (simp_all add: startRun_def)

lemma convert_completes:
  assumes bs: "1 \<le> batchSize" and ne: "groups \<noteq> []"
    and ok: "dryRun \<or> (\<forall>g \<in> set groups. \<not> nullish (document g))"
  shows "\<exists>tr s' r. convertReferences (Some c) groups batchSize dryRun t s = Some (tr, s')
           \<and> (r, s') = fold (settle c dryRun t) groups
                          (\<lparr>converted = 0, errors = [], spaceSaved = 0\<rparr>, s)
           \<and> completions tr = [r] \<and> failures tr = []
           \<and> commitsOf tr = (if dryRun then [] else map (callOf t) groups)"
proof -
  define n where "n = nat batchSize"
  have n: "0 < n" "batchSize = int n" using bs by (simp_all add: n_def)
  have cc: "concat (batchesOf n groups) = groups" using n(1) by (rule concat_batchesOf)
  have loop: "batchLoop c dryRun t groups batchSize 0 (startRun s)
        = Some (runBatches c dryRun t (length groups) (batchesOf n groups) (startRun s))"
    using batchLoop_batches [OF n(1), of c dryRun t groups 0 "startRun s"] n(2) by simp
  have "dryRun \<or> (\<forall>g \<in> set (concat (batchesOf n groups)). \<not> nullish (document g))"
    using ok cc by simp
  from runBatches_settle [OF this, of c t "length groups" "startRun s"] obtain st where
    rb: "runBatches c dryRun t (length groups) (batchesOf n groups) (startRun s) = Inr st"
    and r: "(result st, store st) = fold (settle c dryRun t) groups
              (\<lparr>converted = 0, errors = [], spaceSaved = 0\<rparr>, s)"
    and cm: "commitsOf (trace st) = (if dryRun then [] else map (callOf t) groups)"
    and cp: "completions (trace st) = []"
    and fl: "failures (trace st) = []"
    unfolding cc by auto
  have "convertReferences (Some c) groups batchSize dryRun t s =
          Some (trace st @
            [SetMessage ((if dryRun then ''Dry run complete'' else ''Conversion complete'')
               @ '': '' @ showNat (converted (result st)) @ '' documents processed''),
             OnComplete (result st),
             SetIsLoading False], store st)"
    using ne loop rb by (simp add: convertReferences_start)
  moreover have "completions (trace st @
            [SetMessage ((if dryRun then ''Dry run complete'' else ''Conversion complete'')
               @ '': '' @ showNat (converted (result st)) @ '' documents processed''),
             OnComplete (result st),
             SetIsLoading False]) = [result st]"
    using cp by simp
  moreover have "failures (trace st @
            [SetMessage ((if dryRun then ''Dry run complete'' else ''Conversion complete'')
               @ '': '' @ showNat (converted (result st)) @ '' documents processed''),
             OnComplete (result st),
             SetIsLoading False]) = []"
    using fl by simp
  moreover have "commitsOf (trace st @
            [SetMessage ((if dryRun then ''Dry run complete'' else ''Conversion complete'')
               @ '': '' @ showNat (converted (result st)) @ '' documents processed''),
             OnComplete (result st),
             SetIsLoading False]) = (if dryRun then [] else map (callOf t) groups)"
    using cm by simp
  ultimately show ?thesis using r by blast
qed

lemma convert_dry:
  assumes "1 \<le> batchSize" and "groups \<noteq> []"
  shows "\<exists>tr. convertReferences (Some c) groups batchSize True t s = Some (tr, s)
           \<and> completions tr = [\<lparr>converted = length groups, errors = [],
                                 spaceSaved = spaceOf t groups\<rparr>]
           \<and> failures tr = [] \<and> commitsOf tr = []"
proof -
  from convert_completes [OF assms, of True c t s] obtain tr s' r where
    "convertReferences (Some c) groups batchSize True t s = Some (tr, s')"
    "(r, s') = fold (settle c True t) groups
                          (\<lparr>converted = 0, errors = [], spaceSaved = 0\<rparr>, s)"
    "completions tr = [r]" "failures tr = []" "commitsOf tr = []"
    by auto
  then show ?thesis by (simp add: fold_settle_dry)
qed

lemma convert_run:
  assumes "1 \<le> batchSize" and "groups \<noteq> []"
    and "\<forall>g \<in> set groups. \<not> nullish (document g)"
  shows "\<exists>tr s'. convertReferences (Some c) groups batchSize False t s = Some (tr, s')
           \<and> completions tr =
               [\<lparr>converted = length (succeeded groups (outcomes c t groups s)),
                 errors = failed groups (outcomes c t groups s),
                 spaceSaved = spaceOf t (succeeded groups (outcomes c t groups s))\<rparr>]
           \<and> failures tr = [] \<and> commitsOf tr = map (callOf t) groups"
proof -
  have "False \<or> (\<forall>g \<in> set groups. \<not> nullish (document g))" using assms(3) by simp
  from convert_completes [OF assms(1,2) this, of c t s] obtain tr s' r where
    c: "convertReferences (Some c) groups batchSize False t s = Some (tr, s')"
    and r: "(r, s') = fold (settle c False t) groups
                          (\<lparr>converted = 0, errors = [], spaceSaved = 0\<rparr>, s)"
    and e: "completions tr = [r]" "failures tr = []" "commitsOf tr = map (callOf t) groups"
    by auto
  from r have "r = fst (fold (settle c False t) groups
                          (\<lparr>converted = 0, errors = [], spaceSaved = 0\<rparr>, s))"
    by (metis fst_conv)
  then have "r = \<lparr>converted = length (succeeded groups (outcomes c t groups s)),
                 errors = failed groups (outcomes c t groups s),
                 spaceSaved = spaceOf t (succeeded groups (outcomes c t groups s))\<rparr>"
    by (simp add: fold_settle_run)
  then show ?thesis using c e by simp
qed

lemma processItem_hooks:
  "completions (trace (runOf (processItem c dryRun t g st))) = completions (trace st)
   \<and> failures (trace (runOf (processItem c dryRun t g st))) = failures (trace st)"
  by (simp add: processItem_def Let_def split: prod.splits option.splits)

lemma forOfBatch_hooks:
  "completions (trace (runOf (forOfBatch c dryRun t gs st))) = completions (trace st)
   \<and> failures (trace (runOf (forOfBatch c dryRun t gs st))) = failures (trace st)"
proof (induction gs arbitrary: st)
  case Nil
  then show ?case by simp
next
  case (Cons g gs)
  show ?case
  proof (cases "processItem c dryRun t g st")
    case (Inl a)
    obtain e st1 where a: "a = (e, st1)" by (cases a)
    from processItem_hooks [of c dryRun t g st] show ?thesis
      by (simp add: Inl a)
  next
    case (Inr st1)
    from processItem_hooks [of c dryRun t g st] Cons.IH [of st1] show ?thesis
      by (simp add: Inr)
  qed
qed

lemma batchLoop_hooks:
  assumes "batchLoop c dryRun t refs batchSize i st = Some y"
  shows "completions (trace (runOf y)) = completions (trace st)
         \<and> failures (trace (runOf y)) = failures (trace st)"
proof (rule batchLoop.raw_induct
    [where P = "\<lambda>c dryRun t refs batchSize i st y.
       completions (trace (runOf y)) = completions (trace st)
         \<and> failures (trace (runOf y)) = failures (trace st)", OF _ assms])
  fix loop :: "'s client \<Rightarrow> bool \<Rightarrow> mode \<Rightarrow> group list \<Rightarrow> int \<Rightarrow> int \<Rightarrow> 's run
      \<Rightarrow> ((thrown \<times> 's run) + 's run) option"
  fix c dryRun t refs batchSize i st y
  assume IH: "\<And>c dryRun t refs batchSize i st y.
      loop c dryRun t refs batchSize i st = Some y \<Longrightarrow>
      completions (trace (runOf y)) = completions (trace st)
         \<and> failures (trace (runOf y)) = failures (trace st)"
  assume eq: "(if i < int (length refs) then
        (case forOfBatch c dryRun t (slice refs i (i + batchSize)) st of
           Inl e \<Rightarrow> Some (Inl e)
         | Inr st' \<Rightarrow>
             loop c dryRun t refs batchSize (i + batchSize)
               (st'\<lparr>trace := trace st' @
                  [SetMessage (progressMessage dryRun (converted (result st'))
                     (length refs))]\<rparr>))
      else Some (Inr st)) = Some y"
  show "completions (trace (runOf y)) = completions (trace st)
         \<and> failures (trace (runOf y)) = failures (trace st)"
  proof (cases "i < int (length refs)")
    case False
    then show ?thesis using eq by auto
  next
    case True
    note hooks = forOfBatch_hooks [of c dryRun t "slice refs i (i + batchSize)" st]
    show ?thesis
    proof (cases "forOfBatch c dryRun t (slice refs i (i + batchSize)) st")
      case (Inl a)
      then have "y = Inl a" using eq True by simp
      then show ?thesis using hooks Inl by simp
    next
      case (Inr st1)
      then have "loop c dryRun t refs batchSize (i + batchSize)
               (st1\<lparr>trace := trace st1 @
                  [SetMessage (progressMessage dryRun (converted (result st1))
                     (length refs))]\<rparr>) = Some y"
        using eq True by simp
      from IH [OF this] hooks show ?thesis by (simp add: Inr)
    qed
  qed
qed

lemma convertReferences_hooks:
  assumes "convertReferences cl groups batchSize dryRun t s = Some (tr, s')"
  shows "length (completions tr) + length (failures tr) \<le> 1
         \<and> (completions tr \<noteq> [] \<or> failures tr \<noteq> [] \<longrightarrow> groups \<noteq> [] \<and> cl \<noteq> None)"
proof (cases cl)
  case None
  then show ?thesis using assms by (simp add: convertReferences_def)
next
  case (Some c)
  show ?thesis
  proof (cases "groups = []")
    case True
    then show ?thesis using assms Some by (simp add: convertReferences_def)
  next
    case False
    show ?thesis
    proof (cases "batchLoop c dryRun t groups batchSize 0 (startRun s)")
      case None
      then show ?thesis using assms Some False by (simp add: convertReferences_start)
    next
      case y: (Some y)
      from batchLoop_hooks [OF y] have h: "completions (trace (runOf y)) = []"
        "failures (trace (runOf y)) = []" by simp_all
      show ?thesis
      proof (cases y)
        case (Inl a)
        obtain e st where a: "a = (e, st)" by (cases a)
        have "tr = trace st @
            [SetMessage (''Conversion error: '' @ errorMessage e ''Conversion failed''),
             OnError (errorMessage e ''Conversion failed''),
             SetIsLoading False]"
          using assms Some False y Inl a by (simp add: convertReferences_start)
        then show ?thesis using h Inl a Some False by simp
      next
        case (Inr st)
        have "tr = trace st @
            [SetMessage ((if dryRun then ''Dry run complete'' else ''Conversion complete'')
               @ '': '' @ showNat (converted (result st)) @ '' documents processed''),
             OnComplete (result st),
             SetIsLoading False]"
          using assms Some False y Inr by (simp add: convertReferences_start)
        then show ?thesis using h Inr Some False by simp
      qed
    qed
  qed
qed

lemma failed_zip:
  "length os = length gs \<Longrightarrow>
   failed gs os
   = concat (map (\<lambda>(g, out). case out of None \<Rightarrow> [] | Some e \<Rightarrow> [failureMessage g e])
       (zip gs os))"
proof (induction gs os rule: list_induct2')
  case (4 g gs out os)
  then show ?case by (cases out) simp_all
qed simp_all

lemma succeeded_count:
  "length os = length gs \<Longrightarrow>
   length (succeeded gs os) = length (filter (\<lambda>out. out = None) os)
   \<and> length (succeeded gs os) + length (failed gs os) = length gs"
proof (induction gs os rule: list_induct2')
  case (4 g gs out os)
  then show ?case by (cases out) simp_all
qed simp_all

text \<open>
  C3. In a run that is not dry, with a batch size of at least one, over groups whose
  documents are objects, whatever each commit answers: the run completes (\<^verbatim>\<open>onComplete\<close>
  once, \<^verbatim>\<open>onError\<close> never) after asking a commit of every group in order; its errors
  are, in the order of the groups, one message
  \<^verbatim>\<open>Failed to convert {_id}: {message}\<close> for each group whose commit threw, appended
  one after the other, and \<open>converted\<close> is the number of groups whose commit succeeded,
  so every group is counted once, as converted or as an error. When exactly one group
  fails the errors are its one message and \<open>converted\<close> counts all the others.
\<close>

theorem convertReferences_isolates_failure:
  assumes "1 \<le> batchSize" and "groups \<noteq> []"
    and "\<forall>g \<in> set groups. \<not> nullish (document g)"
  shows "\<exists>tr s' res. convertReferences (Some c) groups batchSize False t s = Some (tr, s')
           \<and> completions tr = [res] \<and> failures tr = []
           \<and> commitsOf tr = map (callOf t) groups
           \<and> errors res
               = concat (map (\<lambda>(g, out). case out of None \<Rightarrow> []
                    | Some e \<Rightarrow> [''Failed to convert '' @ toStr (getProp (document g) ''_id'')
                                  @ '': '' @ errorMessage e ''Conversion failed''])
                   (zip groups (outcomes c t groups s)))
           \<and> converted res = length (filter (\<lambda>out. out = None) (outcomes c t groups s))
           \<and> converted res + length (errors res) = length groups
           \<and> (\<forall>before g after e.
                 groups = before @ [g] @ after
                 \<and> outcomes c t groups s
                     = replicate (length before) None @ [Some e] @ replicate (length after) None
                 \<longrightarrow> errors res
                       = [''Failed to convert '' @ toStr (getProp (document g) ''_id'')
                            @ '': '' @ errorMessage e ''Conversion failed'']
                     \<and> converted res = length before + length after)"
proof -
  define os where "os = outcomes c t groups s"
  have len: "length os = length groups" by (simp add: os_def)
  from convert_run [OF assms, of c t s] obtain tr s' where
    c: "convertReferences (Some c) groups batchSize False t s = Some (tr, s')"
    and r: "completions tr =
               [\<lparr>converted = length (succeeded groups os),
                 errors = failed groups os,
                 spaceSaved = spaceOf t (succeeded groups os)\<rparr>]"
    and f: "failures tr = []" and m: "commitsOf tr = map (callOf t) groups"
    unfolding os_def by blast
  define res where "res = \<lparr>converted = length (succeeded groups os),
                 errors = failed groups os,
                 spaceSaved = spaceOf t (succeeded groups os)\<rparr>"
  have r': "completions tr = [res]" using r by (simp add: res_def)
  have e: "errors res
               = concat (map (\<lambda>(g, out). case out of None \<Rightarrow> []
                    | Some e \<Rightarrow> [''Failed to convert '' @ toStr (getProp (document g) ''_id'')
                                  @ '': '' @ errorMessage e ''Conversion failed''])
                   (zip groups os))"
    using failed_zip [OF len, unfolded failureMessage_def] by (simp add: res_def)
  have n: "converted res = length (filter (\<lambda>out. out = None) os)"
    using succeeded_count [OF len] by (simp add: res_def)
  have total: "converted res + length (errors res) = length groups"
    using succeeded_count [OF len] by (simp add: res_def)
  have single: "\<forall>before g after e.
                 groups = before @ [g] @ after
                 \<and> os = replicate (length before) None @ [Some e] @ replicate (length after) None
                 \<longrightarrow> errors res
                       = [''Failed to convert '' @ toStr (getProp (document g) ''_id'')
                            @ '': '' @ errorMessage e ''Conversion failed'']
                     \<and> converted res = length before + length after"
  proof (intro allI impI)
    fix before g after e
    assume a: "groups = before @ [g] @ after
                 \<and> os = replicate (length before) None @ [Some e] @ replicate (length after) None"
    then have o: "os = replicate (length before) None @ [Some e] @ replicate (length after) None"
      and g: "groups = before @ [g] @ after" by simp_all
    note one = one_failure [OF o, of g]
    show "errors res
                       = [''Failed to convert '' @ toStr (getProp (document g) ''_id'')
                            @ '': '' @ errorMessage e ''Conversion failed'']
                     \<and> converted res = length before + length after"
      unfolding res_def g using one by (simp add: failureMessage_def)
  qed
  show ?thesis
    unfolding os_def [symmetric]
    by (intro exI [of _ tr] exI [of _ s'] exI [of _ res] conjI c r' f m e n total single)
qed

theorem convertReferences_isolates_failure_witness:
  "\<exists>tr s' res. convertReferences (Some sampleClient)
              [sampleGroup ''doc-1'', sampleGroup ''bad'', sampleGroup ''doc-3'',
               sampleGroup ''bad''] 2 False StrongToWeak 0 = Some (tr, s')
     \<and> completions tr = [res] \<and> failures tr = []
     \<and> map fst (commitsOf tr) = [JStr ''doc-1'', JStr ''bad'', JStr ''doc-3'', JStr ''bad'']
     \<and> errors res = [''Failed to convert bad: timeout'', ''Failed to convert bad: timeout'']
     \<and> converted res = 2
     \<and> (\<exists>tr1 s1 res1. convertReferences (Some sampleClient)
              [sampleGroup ''doc-1'', sampleGroup ''bad'', sampleGroup ''doc-3''] 2 False
              StrongToWeak 0 = Some (tr1, s1)
          \<and> completions tr1 = [res1]
          \<and> errors res1 = [''Failed to convert bad: timeout'']
          \<and> converted res1 = 2)"
proof -
  define gs where "gs = [sampleGroup ''doc-1'', sampleGroup ''bad'', sampleGroup ''doc-3'',
               sampleGroup ''bad'']"
  have h1: "(1::int) \<le> 2" by simp
  have h2: "gs \<noteq> []" by (simp add: gs_def)
  have h3: "\<forall>x \<in> set gs. \<not> nullish (document x)"
    by (simp add: gs_def sampleGroup_def sampleDocument_def nullish_def)
  have os: "outcomes sampleClient StrongToWeak gs 0
            = [None, Some (ErrorObject ''timeout''), None, Some (ErrorObject ''timeout'')]"
    by (simp add: gs_def sampleClient_def sampleGroup_def sampleDocument_def callOf_def)
  from convertReferences_isolates_failure [OF h1 h2 h3, of sampleClient StrongToWeak 0]
  obtain tr s' res where
    c: "convertReferences (Some sampleClient) gs 2 False StrongToWeak 0 = Some (tr, s')"
    and r: "completions tr = [res]" and f: "failures tr = []"
    and m: "commitsOf tr = map (callOf StrongToWeak) gs"
    and e: "errors res
               = concat (map (\<lambda>(g, out). case out of None \<Rightarrow> []
                    | Some e \<Rightarrow> [''Failed to convert '' @ toStr (getProp (document g) ''_id'')
                                  @ '': '' @ errorMessage e ''Conversion failed''])
                   (zip gs (outcomes sampleClient StrongToWeak gs 0)))"
    and n: "converted res
              = length (filter (\<lambda>out. out = None) (outcomes sampleClient StrongToWeak gs 0))"
    by (elim exE conjE)
  have e': "errors res = [''Failed to convert bad: timeout'', ''Failed to convert bad: timeout'']"
    unfolding e os by (simp add: gs_def sampleGroup_def sampleDocument_def errorMessage_def)
  have n': "converted res = 2" unfolding n os by simp
  have m': "map fst (commitsOf tr)
            = [JStr ''doc-1'', JStr ''bad'', JStr ''doc-3'', JStr ''bad'']"
    unfolding m by (simp add: gs_def callOf_def sampleGroup_def sampleDocument_def)
  define hs where "hs = [sampleGroup ''doc-1''] @ [sampleGroup ''bad''] @ [sampleGroup ''doc-3'']"
  have k2: "hs \<noteq> []" by (simp add: hs_def)
  have k3: "\<forall>x \<in> set hs. \<not> nullish (document x)"
    by (simp add: hs_def sampleGroup_def sampleDocument_def nullish_def)
  have k4: "hs = [sampleGroup ''doc-1''] @ [sampleGroup ''bad''] @ [sampleGroup ''doc-3'']
      \<and> outcomes sampleClient StrongToWeak hs 0
          = replicate (length [sampleGroup ''doc-1'']) None @ [Some (ErrorObject ''timeout'')]
            @ replicate (length [sampleGroup ''doc-3'']) None"
    by (simp add: hs_def sampleClient_def sampleGroup_def sampleDocument_def callOf_def)
  from convertReferences_isolates_failure [OF h1 k2 k3, of sampleClient StrongToWeak 0]
  obtain tr1 s1 res1 where
    c1: "convertReferences (Some sampleClient) hs 2 False StrongToWeak 0 = Some (tr1, s1)"
    and r1: "completions tr1 = [res1]"
    and one: "\<forall>before g after e.
                 hs = before @ [g] @ after
                 \<and> outcomes sampleClient StrongToWeak hs 0
                     = replicate (length before) None @ [Some e] @ replicate (length after) None
                 \<longrightarrow> errors res1
                       = [''Failed to convert '' @ toStr (getProp (document g) ''_id'')
                            @ '': '' @ errorMessage e ''Conversion failed'']
                     \<and> converted res1 = length before + length after"
    by (elim exE conjE)
  note o = one [THEN spec, THEN spec, THEN spec, THEN spec, THEN mp, OF k4]
  have e1: "errors res1 = [''Failed to convert bad: timeout'']"
    using o [THEN conjunct1]
    by (simp add: sampleGroup_def sampleDocument_def errorMessage_def)
  have n1: "converted res1 = 2"
    using o [THEN conjunct2] by simp
  have single: "\<exists>tr1 s1 res1. convertReferences (Some sampleClient)
              [sampleGroup ''doc-1'', sampleGroup ''bad'', sampleGroup ''doc-3''] 2 False
              StrongToWeak 0 = Some (tr1, s1)
          \<and> completions tr1 = [res1]
          \<and> errors res1 = [''Failed to convert bad: timeout'']
          \<and> converted res1 = 2"
    using c1 unfolding hs_def append.simps
    by (intro exI [of _ tr1] exI [of _ s1] exI [of _ res1] conjI r1 e1 n1)
  show ?thesis
    unfolding gs_def [symmetric]
    by (intro exI [of _ tr] exI [of _ s'] exI [of _ res] conjI c r f m' e' n' single)
qed

text \<open>
  C4. With a batch size of at least one, the loop of \<^verbatim>\<open>convertReferences\<close> is the
  processing, one after the other, of the consecutive batches of that size: the batches
  put together are the groups (every group once, in order), every batch but the last has
  exactly \<open>batchSize\<close> groups and none is empty or longer. A run that is not dry, over
  documents that are objects, asks one commit per group in order. Twenty-five groups
  with a batch size of ten make three batches of ten, ten and five groups, and when every
  commit succeeds \<open>converted\<close> is the number of groups, 25 there: one per document,
  whatever the number of its references.
\<close>

theorem convertReferences_batches:
  assumes "1 \<le> batchSize"
  shows "batchLoop c dryRun t groups batchSize 0 st
           = Some (runBatches c dryRun t (length groups) (batchesOf (nat batchSize) groups) st)
         \<and> concat (batchesOf (nat batchSize) groups) = groups
         \<and> (\<forall>b \<in> set (batchesOf (nat batchSize) groups). 0 < length b \<and> length b \<le> nat batchSize)
         \<and> (\<forall>b \<in> set (butlast (batchesOf (nat batchSize) groups)). length b = nat batchSize)
         \<and> (length groups = 25 \<and> batchSize = 10
              \<longrightarrow> map length (batchesOf (nat batchSize) groups) = [10, 10, 5])
         \<and> (groups \<noteq> [] \<and> (\<forall>g \<in> set groups. \<not> nullish (document g))
              \<longrightarrow> (\<exists>tr s'. convertReferences (Some c) groups batchSize False t s = Some (tr, s')
                     \<and> commitsOf tr = map (callOf t) groups
                     \<and> ((\<forall>out \<in> set (outcomes c t groups s). out = None)
                          \<longrightarrow> map converted (completions tr) = [length groups]
                              \<and> map errors (completions tr) = [[]])))"
proof -
  define n where "n = nat batchSize"
  have n: "0 < n" "batchSize = int n" using assms by (simp_all add: n_def)
  have 1: "batchLoop c dryRun t groups batchSize 0 st
           = Some (runBatches c dryRun t (length groups) (batchesOf n groups) st)"
    using batchLoop_batches [OF n(1), of c dryRun t groups 0 st] n(2) by simp
  have 2: "concat (batchesOf n groups) = groups" using n(1) by (rule concat_batchesOf)
  have 3: "\<forall>b \<in> set (batchesOf n groups). 0 < length b \<and> length b \<le> n"
    using batchesOf_sizes [OF n(1)] by blast
  have 4: "\<forall>b \<in> set (butlast (batchesOf n groups)). length b = n"
    using batchesOf_full [OF n(1)] by blast
  have 5: "length groups = 25 \<and> batchSize = 10 \<longrightarrow> map length (batchesOf n groups) = [10, 10, 5]"
  proof
    assume a: "length groups = 25 \<and> batchSize = 10"
    then have "n = 10" by (simp add: n_def)
    then show "map length (batchesOf n groups) = [10, 10, 5]"
      using batchesOf_25_10 [of groups] a by simp
  qed
  have 6: "groups \<noteq> [] \<and> (\<forall>g \<in> set groups. \<not> nullish (document g))
              \<longrightarrow> (\<exists>tr s'. convertReferences (Some c) groups batchSize False t s = Some (tr, s')
                     \<and> commitsOf tr = map (callOf t) groups
                     \<and> ((\<forall>out \<in> set (outcomes c t groups s). out = None)
                          \<longrightarrow> map converted (completions tr) = [length groups]
                              \<and> map errors (completions tr) = [[]]))"
  proof
    assume a: "groups \<noteq> [] \<and> (\<forall>g \<in> set groups. \<not> nullish (document g))"
    then have ne: "groups \<noteq> []" and ok: "\<forall>g \<in> set groups. \<not> nullish (document g)"
      by simp_all
    from convert_run [OF assms ne ok, of c t s] obtain tr s' where
      c: "convertReferences (Some c) groups batchSize False t s = Some (tr, s')"
      and r: "completions tr =
               [\<lparr>converted = length (succeeded groups (outcomes c t groups s)),
                 errors = failed groups (outcomes c t groups s),
                 spaceSaved = spaceOf t (succeeded groups (outcomes c t groups s))\<rparr>]"
      and m: "commitsOf tr = map (callOf t) groups"
      by blast
    have "(\<forall>out \<in> set (outcomes c t groups s). out = None)
            \<longrightarrow> map converted (completions tr) = [length groups]
                \<and> map errors (completions tr) = [[]]"
    proof
      assume "\<forall>out \<in> set (outcomes c t groups s). out = None"
      then have "succeeded groups (outcomes c t groups s) = groups
                 \<and> failed groups (outcomes c t groups s) = []"
        by (intro succeeded_all) simp_all
      then show "map converted (completions tr) = [length groups]
                \<and> map errors (completions tr) = [[]]"
        using r by simp
    qed
    then have imp: "(\<forall>out \<in> set (outcomes c t groups s). out = None)
            \<longrightarrow> map converted (completions tr) = [length groups]
                \<and> map errors (completions tr) = [[]]" .
    show "\<exists>tr s'. convertReferences (Some c) groups batchSize False t s = Some (tr, s')
                     \<and> commitsOf tr = map (callOf t) groups
                     \<and> ((\<forall>out \<in> set (outcomes c t groups s). out = None)
                          \<longrightarrow> map converted (completions tr) = [length groups]
                              \<and> map errors (completions tr) = [[]])"
      by (intro exI [of _ tr] exI [of _ s'] conjI c m imp)
  qed
  show ?thesis
    unfolding n_def [symmetric] by (intro conjI 1 2 3 4 5 6)
qed

theorem convertReferences_batches_witness:
  "map length (batchesOf 10 (sampleGroups 25)) = [10, 10, 5]
   \<and> concat (batchesOf 10 (sampleGroups 25)) = sampleGroups 25
   \<and> (\<exists>tr s'. convertReferences (Some sampleClient) (sampleGroups 25) 10 False StrongToWeak 0
                 = Some (tr, s')
          \<and> length (commitsOf tr) = 25
          \<and> map converted (completions tr) = [25])"
proof -
  have h1: "(1::int) \<le> 10" by simp
  have h2: "sampleGroups 25 \<noteq> [] \<and> (\<forall>g \<in> set (sampleGroups 25). \<not> nullish (document g))"
    by code_simp
  have h3: "\<forall>out \<in> set (outcomes sampleClient StrongToWeak (sampleGroups 25) 0). out = None"
    by code_simp
  have len: "length (sampleGroups 25) = 25" by (simp add: sampleGroups_def)
  have h4: "length (sampleGroups 25) = 25 \<and> (10::int) = 10"
    using len by simp
  have n10: "nat (10::int) = 10" by simp
  note inst = convertReferences_batches [OF h1, of sampleClient False StrongToWeak
      "sampleGroups 25" "startRun 0" 0, unfolded n10]
  note i2 = inst [THEN conjunct2, THEN conjunct1]
  note i5 = inst [THEN conjunct2, THEN conjunct2, THEN conjunct2, THEN conjunct2,
      THEN conjunct1, THEN mp, OF h4]
  note i6 = inst [THEN conjunct2, THEN conjunct2, THEN conjunct2, THEN conjunct2,
      THEN conjunct2, THEN mp, OF h2]
  from i6 obtain tr s' where
    c: "convertReferences (Some sampleClient) (sampleGroups 25) 10 False StrongToWeak 0
          = Some (tr, s')"
    and m: "commitsOf tr = map (callOf StrongToWeak) (sampleGroups 25)"
    and r: "(\<forall>out \<in> set (outcomes sampleClient StrongToWeak (sampleGroups 25) 0). out = None)
             \<longrightarrow> map converted (completions tr) = [length (sampleGroups 25)]
                 \<and> map errors (completions tr) = [[]]"
    by (elim exE conjE)
  from r [THEN mp, OF h3] have r': "map converted (completions tr) = [25]"
    unfolding len by (rule conjunct1)
  have m': "length (commitsOf tr) = 25" unfolding m using len by simp
  show ?thesis
    by (intro conjI exI [of _ tr] exI [of _ s'] i5 i2 c m' r')
qed

text \<open>
  C5. A dry run with a batch size of at least one returns, asks no commit at all and
  leaves the store as it was. Over matched groups (a non-empty list) it hands
  \<^verbatim>\<open>onComplete\<close> a result whose \<open>converted\<close> is the number of groups and whose
  \<open>spaceSaved\<close> is twenty bytes per occurrence in StrongToWeak mode and nothing in
  WeakToStrong mode: the very result of a run that is not dry over the same groups, with
  any client and store, when each of its commits succeeds.
\<close>

theorem convertReferences_dryRun:
  assumes "1 \<le> batchSize"
  shows "\<exists>tr. convertReferences (Some c) groups batchSize True t s = Some (tr, s)
           \<and> commitsOf tr = []
           \<and> (groups \<noteq> [] \<longrightarrow>
                completions tr = [\<lparr>converted = length groups, errors = [],
                                    spaceSaved = spaceOf t groups\<rparr>]
                \<and> (\<forall>c' s'. (\<forall>g \<in> set groups. \<not> nullish (document g))
                      \<and> (\<forall>out \<in> set (outcomes c' t groups s'). out = None)
                    \<longrightarrow> (\<exists>tr' s''. convertReferences (Some c') groups batchSize False t s'
                                      = Some (tr', s'')
                           \<and> completions tr' = completions tr)))"
proof (cases "groups = []")
  case True
  then show ?thesis by (simp add: convertReferences_def)
next
  case False
  from convert_dry [OF assms False, of c t s] obtain tr where
    c: "convertReferences (Some c) groups batchSize True t s = Some (tr, s)"
    and r: "completions tr = [\<lparr>converted = length groups, errors = [],
                                spaceSaved = spaceOf t groups\<rparr>]"
    and m: "commitsOf tr = []"
    by blast
  have same: "\<exists>tr' s''. convertReferences (Some c') groups batchSize False t s' = Some (tr', s'')
                 \<and> completions tr' = completions tr"
    if ok: "\<forall>g \<in> set groups. \<not> nullish (document g)"
      and good: "\<forall>out \<in> set (outcomes c' t groups s'). out = None"
    for c' :: "'b client" and s'
  proof -
    from convert_run [OF assms False ok, of c' t s'] obtain tr' s'' where
      c': "convertReferences (Some c') groups batchSize False t s' = Some (tr', s'')"
      and r': "completions tr' =
               [\<lparr>converted = length (succeeded groups (outcomes c' t groups s')),
                 errors = failed groups (outcomes c' t groups s'),
                 spaceSaved = spaceOf t (succeeded groups (outcomes c' t groups s'))\<rparr>]"
      by blast
    from good have "succeeded groups (outcomes c' t groups s') = groups
                 \<and> failed groups (outcomes c' t groups s') = []"
      by (intro succeeded_all) simp_all
    then have "completions tr' = completions tr" using r r' by simp
    then show ?thesis using c' by (intro exI [of _ tr'] exI [of _ s''] conjI)
  qed
  show ?thesis
    apply (rule exI [of _ tr])
    apply (intro conjI c m impI r allI)
    apply (erule conjE)
    apply (erule (1) same)
    done
qed

theorem convertReferences_dryRun_witness:
  "\<exists>tr. convertReferences (Some sampleClient)
           [sampleGroup ''doc-1'', sampleGroup ''doc-2'', sampleGroup ''doc-3''] 2 True
           StrongToWeak 0 = Some (tr, 0)
     \<and> commitsOf tr = []
     \<and> completions tr = [\<lparr>converted = 3, errors = [], spaceSaved = 60\<rparr>]
     \<and> (\<exists>tr' s''. convertReferences (Some sampleClient)
           [sampleGroup ''doc-1'', sampleGroup ''doc-2'', sampleGroup ''doc-3''] 2 False
           StrongToWeak 0 = Some (tr', s'') \<and> completions tr' = completions tr)"
proof -
  define gs where "gs = [sampleGroup ''doc-1'', sampleGroup ''doc-2'', sampleGroup ''doc-3'']"
  have h1: "(1::int) \<le> 2" by simp
  have ne: "gs \<noteq> []" by (simp add: gs_def)
  have h2: "(\<forall>g \<in> set gs. \<not> nullish (document g))
            \<and> (\<forall>out \<in> set (outcomes sampleClient StrongToWeak gs 0). out = None)"
    by (simp add: gs_def sampleClient_def sampleGroup_def sampleDocument_def callOf_def
        nullish_def)
  have sp: "length gs = 3" "spaceOf StrongToWeak gs = 60"
    by (simp_all add: gs_def spaceOf_def sampleGroup_def)
  from convertReferences_dryRun [OF h1, of sampleClient gs StrongToWeak 0] obtain tr where
    c: "convertReferences (Some sampleClient) gs 2 True StrongToWeak 0 = Some (tr, 0)"
    and m: "commitsOf tr = []"
    and r: "gs \<noteq> [] \<longrightarrow>
                completions tr = [\<lparr>converted = length gs, errors = [],
                                    spaceSaved = spaceOf StrongToWeak gs\<rparr>]
                \<and> (\<forall>(c'::nat client) s'. (\<forall>g \<in> set gs. \<not> nullish (document g))
                      \<and> (\<forall>out \<in> set (outcomes c' StrongToWeak gs s'). out = None)
                    \<longrightarrow> (\<exists>tr' s''. convertReferences (Some c') gs 2 False StrongToWeak s'
                                      = Some (tr', s'')
                           \<and> completions tr' = completions tr))"
    by (elim exE conjE)
  note r1 = r [THEN mp, OF ne, THEN conjunct1, unfolded sp]
  note r2 = r [THEN mp, OF ne, THEN conjunct2, THEN spec, THEN spec, THEN mp, OF h2]
  show ?thesis
    unfolding gs_def [symmetric]
    by (intro exI [of _ tr] conjI c m r1 r2)
qed

section \<open>Properties of the scan\<close>

lemma fetchesOf_append [simp]: "fetchesOf (xs @ ys) = fetchesOf xs @ fetchesOf ys"
  by (induction xs rule: fetchesOf.induct) simp_all

lemma analyze_sound:
  "g \<in> set (analyze docs t) \<Longrightarrow>
   references g \<noteq> [] \<and> references g = findReferences (document g) t ''''
   \<and> refCount g = length (references g) \<and> document g \<in> set docs"
proof (induction docs)
  case Nil
  then show ?case by simp
next
  case (Cons d docs)
  show ?case
  proof (cases "g \<in> set (analyze docs t)")
    case True
    from Cons.IH [OF this] show ?thesis by (elim conjE) (intro conjI, simp_all)
  next
    case False
    then have "findReferences d t '''' \<noteq> []
               \<and> g = \<lparr>document = d, references = findReferences d t '''',
                        refCount = length (findReferences d t '''')\<rparr>"
      using Cons.prems by (simp add: Let_def split: if_splits)
    then show ?thesis by simp
  qed
qed

lemma scan_groups:
  assumes "SetStrongRefs gs \<in> set (scanForReferences cl u cq sel sq m t s)"
  shows "\<exists>c docs. cl = Some c \<and> fetch c s (buildQuery u cq sel sq m) = Inr docs
           \<and> gs = analyze docs t"
proof (cases cl)
  case None
  then show ?thesis using assms by (simp add: scanForReferences_def)
next
  case (Some c)
  show ?thesis
  proof (cases "fetch c s (buildQuery u cq sel sq m)")
    case (Inl e)
    then show ?thesis using assms Some by (simp add: scanForReferences_def)
  next
    case (Inr docs)
    then show ?thesis using assms Some by (simp add: scanForReferences_def Let_def)
  qed
qed

text \<open>
  C9. The groups a scan stores in \<^verbatim>\<open>strongRefs\<close> are made from the documents the fetch
  returned: each has at least one occurrence, namely what the finder returns for its
  document, and a fetched document for which the finder returns nothing is the document
  of no group.
\<close>

theorem scanForReferences_groups_nonempty:
  assumes "SetStrongRefs gs \<in> set (scanForReferences cl useCustomQuery customGroqQuery
              selectedType searchQuery maxDocuments t s)"
  shows "\<exists>c docs. cl = Some c
           \<and> fetch c s (buildQuery useCustomQuery customGroqQuery selectedType searchQuery
                maxDocuments) = Inr docs
           \<and> (\<forall>g \<in> set gs. references g \<noteq> []
                 \<and> references g = findReferences (document g) t ''''
                 \<and> document g \<in> set docs)
           \<and> (\<forall>d \<in> set docs. findReferences d t '''' = [] \<longrightarrow> (\<forall>g \<in> set gs. document g \<noteq> d))"
proof -
  from scan_groups [OF assms] obtain c docs where
    c: "cl = Some c"
    and f: "fetch c s (buildQuery useCustomQuery customGroqQuery selectedType searchQuery
                maxDocuments) = Inr docs"
    and g: "gs = analyze docs t"
    by blast
  have a: "\<forall>g \<in> set gs. references g \<noteq> []
                 \<and> references g = findReferences (document g) t ''''
                 \<and> document g \<in> set docs"
    using analyze_sound unfolding g by blast
  have b: "\<forall>d \<in> set docs. findReferences d t '''' = [] \<longrightarrow> (\<forall>g \<in> set gs. document g \<noteq> d)"
    using a by metis
  show ?thesis
    by (intro exI [of _ c] exI [of _ docs] conjI c f a b)
qed

theorem scanForReferences_groups_nonempty_witness:
  "SetStrongRefs [sampleGroup ''doc-1'']
     \<in> set (scanForReferences (Some sampleClient) False '''' '''' '''' 1000 StrongToWeak 0)
   \<and> (\<exists>docs. fetch sampleClient 0 (buildQuery False '''' '''' '''' 1000) = Inr docs
         \<and> JObj [(''_id'', JStr ''doc-2'')] \<in> set docs
         \<and> findReferences (JObj [(''_id'', JStr ''doc-2'')]) StrongToWeak '''' = []
         \<and> references (sampleGroup ''doc-1'') \<noteq> []
         \<and> document (sampleGroup ''doc-1'') \<noteq> JObj [(''_id'', JStr ''doc-2'')])"
proof -
  have fr: "findReferences (sampleDocument ''doc-1'') StrongToWeak ''''
            = references (sampleGroup ''doc-1'')"
    by (simp add: sampleDocument_def sampleGroup_def forEachKey_Cons emitted_def
        isReference_def occurrenceOf_def currentPath_def jsOr_def)
  have f2: "findReferences (JObj [(''_id'', JStr ''doc-2'')]) StrongToWeak '''' = []"
    by (simp add: forEachKey_Cons emitted_def isReference_def)
  have an: "analyze [sampleDocument ''doc-1'', JObj [(''_id'', JStr ''doc-2'')]] StrongToWeak
            = [sampleGroup ''doc-1'']"
    unfolding analyze.simps fr f2 by (simp add: sampleGroup_def)
  have h: "SetStrongRefs [sampleGroup ''doc-1'']
     \<in> set (scanForReferences (Some sampleClient) False '''' '''' '''' 1000 StrongToWeak 0)"
  proof -
    have fe: "fetch sampleClient 0 q
              = Inr [sampleDocument ''doc-1'', JObj [(''_id'', JStr ''doc-2'')]]" for q
      by (simp add: sampleClient_def)
    show ?thesis
      unfolding scanForReferences_def
      by (simp add: fe an Let_def del: analyze.simps)
  qed
  from scanForReferences_groups_nonempty [OF h] obtain c docs where
    c: "Some sampleClient = Some c"
    and f: "fetch c 0 (buildQuery False '''' '''' '''' 1000) = Inr docs"
    and a: "\<forall>g \<in> set [sampleGroup ''doc-1'']. references g \<noteq> []
                 \<and> references g = findReferences (document g) StrongToWeak ''''
                 \<and> document g \<in> set docs"
    and b: "\<forall>d \<in> set docs. findReferences d StrongToWeak '''' = []
              \<longrightarrow> (\<forall>g \<in> set [sampleGroup ''doc-1'']. document g \<noteq> d)"
    by (elim exE conjE)
  from c have cc: "c = sampleClient" by simp
  have d2: "JObj [(''_id'', JStr ''doc-2'')] \<in> set docs"
    using f unfolding cc by (auto simp: sampleClient_def)
  have r: "references (sampleGroup ''doc-1'') \<noteq> []"
    by (rule a [THEN bspec, OF list.set_intros(1), THEN conjunct1])
  from b d2 f2 have n: "document (sampleGroup ''doc-1'') \<noteq> JObj [(''_id'', JStr ''doc-2'')]"
    by auto
  show ?thesis
    using f [unfolded cc] by (intro conjI h exI [of _ docs] d2 f2 r n)
qed

text \<open>
  C10. With no groups \<^verbatim>\<open>convertReferences\<close> returns at once: no effect, so no result
  and no call of \<^verbatim>\<open>onComplete\<close>. Whenever it returns it has called \<^verbatim>\<open>onComplete\<close> at
  most once, and only if there was a group. With a group, a batch size of at least one
  and documents that are objects (or a dry run) it returns having called \<^verbatim>\<open>onComplete\<close>
  exactly once, with the result accumulated over the groups.
\<close>

theorem convertReferences_onComplete:
  "convertReferences cl [] batchSize dryRun t s = Some ([], s)
   \<and> (\<forall>tr s'. convertReferences cl groups batchSize dryRun t s = Some (tr, s')
         \<longrightarrow> length (completions tr) \<le> 1 \<and> (completions tr \<noteq> [] \<longrightarrow> groups \<noteq> []))
   \<and> (1 \<le> batchSize \<and> groups \<noteq> []
        \<and> (dryRun \<or> (\<forall>g \<in> set groups. \<not> nullish (document g)))
       \<longrightarrow> (\<exists>tr s'. convertReferences (Some c) groups batchSize dryRun t s = Some (tr, s')
              \<and> completions tr
                  = [fst (fold (settle c dryRun t) groups
                       (\<lparr>converted = 0, errors = [], spaceSaved = 0\<rparr>, s))]))"
proof (intro conjI allI impI)
  show "convertReferences cl [] batchSize dryRun t s = Some ([], s)"
    by (cases cl) (simp_all add: convertReferences_def)
next
  fix tr s'
  assume a: "convertReferences cl groups batchSize dryRun t s = Some (tr, s')"
  from convertReferences_hooks [OF a] show "length (completions tr) \<le> 1" by simp
  assume "completions tr \<noteq> []"
  with convertReferences_hooks [OF a] show "groups \<noteq> []" by blast
next
  assume a: "1 \<le> batchSize \<and> groups \<noteq> []
        \<and> (dryRun \<or> (\<forall>g \<in> set groups. \<not> nullish (document g)))"
  then have 1: "1 \<le> batchSize" and 2: "groups \<noteq> []"
    and 3: "dryRun \<or> (\<forall>g \<in> set groups. \<not> nullish (document g))" by simp_all
  from convert_completes [OF 1 2 3, of c t s] obtain tr s' r where
    c: "convertReferences (Some c) groups batchSize dryRun t s = Some (tr, s')"
    and r: "(r, s') = fold (settle c dryRun t) groups
                          (\<lparr>converted = 0, errors = [], spaceSaved = 0\<rparr>, s)"
    and e: "completions tr = [r]"
    by blast
  from r have "r = fst (fold (settle c dryRun t) groups
                          (\<lparr>converted = 0, errors = [], spaceSaved = 0\<rparr>, s))"
    by (metis fst_conv)
  with c e show "\<exists>tr s'. convertReferences (Some c) groups batchSize dryRun t s = Some (tr, s')
              \<and> completions tr
                  = [fst (fold (settle c dryRun t) groups
                       (\<lparr>converted = 0, errors = [], spaceSaved = 0\<rparr>, s))]"
    by blast
qed

theorem convertReferences_onComplete_witness:
  "convertReferences (Some sampleClient) [] 10 False StrongToWeak 0 = Some ([], 0)
   \<and> (\<exists>tr s'. convertReferences (Some sampleClient) [sampleGroup ''doc-1''] 10 False
                 StrongToWeak 0 = Some (tr, s')
         \<and> completions tr = [\<lparr>converted = 1, errors = [], spaceSaved = 20\<rparr>])"
proof -
  note inst = convertReferences_onComplete [of "Some sampleClient" 10 False StrongToWeak 0
      "[sampleGroup ''doc-1'']" sampleClient]
  have h: "(1::int) \<le> 10 \<and> [sampleGroup ''doc-1''] \<noteq> []
        \<and> (False \<or> (\<forall>g \<in> set [sampleGroup ''doc-1'']. \<not> nullish (document g)))"
    by (simp add: sampleGroup_def sampleDocument_def nullish_def)
  have ev: "fst (fold (settle sampleClient False StrongToWeak) [sampleGroup ''doc-1'']
                       (\<lparr>converted = 0, errors = [], spaceSaved = 0\<rparr>, 0))
            = \<lparr>converted = 1, errors = [], spaceSaved = 20\<rparr>"
    by (simp add: settle_def callOf_def sampleClient_def sampleGroup_def sampleDocument_def
        countConverted_def)
  note a = inst [THEN conjunct1]
  note b = inst [THEN conjunct2, THEN conjunct2, THEN mp, OF h, unfolded ev]
  show ?thesis by (intro conjI a b)
qed

section \<open>Configuration\<close>













section \<open>Properties of the byte formatter\<close>

lemma digit_cases:
  assumes "d < 10"
  shows "d = 0 \<or> d = 1 \<or> d = 2 \<or> d = 3 \<or> d = 4 \<or> d = 5 \<or> d = 6 \<or> d = 7 \<or> d = 8
         \<or> d = (9::nat)"
  using assms by arith

lemma digitChar_zero: "d < 10 \<Longrightarrow> (digitChar d = CHR ''0'') = (d = 0)"
  using digit_cases [of d] by (auto simp: digitChar_def)

lemma digitChar_not_point: "d < 10 \<Longrightarrow> digitChar d \<noteq> CHR ''.''"
  using digit_cases [of d] by (auto simp: digitChar_def)

lemma parseFloatToString_toFixed2:
  "parseFloatToString (toFixed2 bytes i) = twoDecimals (hundredths bytes i)"
proof -
  define q where "q = hundredths bytes i"
  define w where "w = showNat (q div 100)"
  define d1 where "d1 = q mod 100 div 10"
  define d2 where "d2 = q mod 10"
  have d: "d1 < 10" "d2 < 10" by (simp_all add: d1_def d2_def)
  have tf: "toFixed2 bytes i = w @ ''.'' @ [digitChar d1, digitChar d2]"
    by (simp add: toFixed2_def Let_def q_def w_def d1_def d2_def)
  have rv: "rev (w @ ''.'' @ [digitChar d1, digitChar d2])
            = digitChar d2 # digitChar d1 # CHR ''.'' # rev w"
    by simp
  have m: "q mod 10 = q mod 100 mod 10" by (simp add: mod_mod_cancel)
  have z: "(q mod 100 = 0) = (d1 = 0 \<and> d2 = 0)"
  proof
    assume "q mod 100 = 0"
    then show "d1 = 0 \<and> d2 = 0" unfolding d1_def d2_def m by simp
  next
    assume "d1 = 0 \<and> d2 = 0"
    then have a: "q mod 100 div 10 = 0" and b: "q mod 100 mod 10 = 0"
      unfolding d1_def d2_def m by simp_all
    from a have "q mod 100 < 10" by (simp add: div_eq_0_iff)
    then have "q mod 100 mod 10 = q mod 100" by simp
    with b show "q mod 100 = 0" by simp
  qed
  have z2: "(q mod 10 = 0) = (d2 = 0)" by (simp add: d2_def)
  have td: "twoDecimals q = w @ (if d1 = 0 \<and> d2 = 0 then ''''
        else if d2 = 0 then ''.'' @ [digitChar d1]
        else ''.'' @ [digitChar d1, digitChar d2])"
    unfolding twoDecimals_def z z2 by (simp add: w_def d1_def d2_def)
  have "parseFloatToString (w @ ''.'' @ [digitChar d1, digitChar d2])
        = w @ (if d1 = 0 \<and> d2 = 0 then ''''
        else if d2 = 0 then ''.'' @ [digitChar d1]
        else ''.'' @ [digitChar d1, digitChar d2])"
  proof (cases "d2 = 0")
    case False
    then have "digitChar d2 \<noteq> CHR ''0''" using d digitChar_zero by simp
    then show ?thesis
      using False digitChar_not_point [OF d(2)]
      unfolding parseFloatToString_def rv by (simp add: Let_def)
  next
    case True
    then have e2: "digitChar d2 = CHR ''0''" using d digitChar_zero by simp
    show ?thesis
    proof (cases "d1 = 0")
      case False
      then have "digitChar d1 \<noteq> CHR ''0''" using d digitChar_zero by simp
      then show ?thesis
        using False True e2 digitChar_not_point [OF d(1)]
        unfolding parseFloatToString_def rv by (simp add: Let_def)
    next
      case z1: True
      then have e1: "digitChar d1 = CHR ''0''" using d digitChar_zero by simp
      show ?thesis
        using True z1 e1 e2
        unfolding parseFloatToString_def rv by (simp add: Let_def)
    qed
  qed
  then show ?thesis unfolding tf td q_def [symmetric] .
qed

lemma unitIndex_bounds:
  "0 < n \<Longrightarrow> 1024 ^ unitIndex n \<le> n \<and> n < 1024 ^ Suc (unitIndex n)"
proof (induction n rule: unitIndex.induct)
  case (1 n)
  show ?case
  proof (cases "n < 1024")
    case True
    then show ?thesis using "1.prems" by (simp add: unitIndex.simps)
  next
    case False
    then have pos: "0 < n div 1024" by (simp add: div_greater_zero_iff)
    from "1.IH" [OF False pos] have
      lo: "1024 ^ unitIndex (n div 1024) \<le> n div 1024"
      and hi: "n div 1024 < 1024 ^ Suc (unitIndex (n div 1024))" by simp_all
    have u: "unitIndex n = Suc (unitIndex (n div 1024))"
      using False by (subst unitIndex.simps) simp
    have "1024 * 1024 ^ unitIndex (n div 1024) \<le> 1024 * (n div 1024)"
      using lo by simp
    also have "\<dots> \<le> n" by simp
    finally have a: "1024 ^ unitIndex n \<le> n" unfolding u by simp
    have "n < 1024 * (n div 1024 + 1)"
      by (metis add.commute dividend_less_times_div mult.commute mult_Suc_right plus_1_eq_Suc zero_less_numeral)
    also have "\<dots> \<le> 1024 * 1024 ^ Suc (unitIndex (n div 1024))"
      using hi by simp
    finally have b: "n < 1024 ^ Suc (unitIndex n)" unfolding u by simp
    show ?thesis using a b by simp
  qed
qed

lemma unitIndex_small:
  assumes "0 < n" and "n < 1024 ^ k"
  shows "unitIndex n < k"
proof -
  from unitIndex_bounds [OF assms(1)] have "1024 ^ unitIndex n \<le> n" by simp
  then have "(1024::nat) ^ unitIndex n < 1024 ^ k" using assms(2) by (rule le_less_trans)
  then show ?thesis using power_less_imp_less_exp [of 1024 "unitIndex n" k] by simp
qed

lemma hundredths_bounds:
  "2 * 1024 ^ i * hundredths bytes i \<le> 200 * bytes + 1024 ^ i
   \<and> 200 * bytes + 1024 ^ i < 2 * 1024 ^ i * (hundredths bytes i + 1)"
proof -
  have pos: "0 < (2::nat) * 1024 ^ i" by simp
  show ?thesis
    unfolding hundredths_def
    using pos
    by (metis Suc_eq_plus1 dividend_less_times_div mult.commute mult_Suc_right times_div_less_eq_dividend add.commute)
qed

lemma unitIndex_1536: "unitIndex 1536 = Suc 0"
  by (simp add: unitIndex.simps)
lemma hundredths_1536: "hundredths 1536 (Suc 0) = 150"
  by (simp add: hundredths_def)
lemma toFixed2_1536: "toFixed2 1536 (Suc 0) = ''1.50''"
  by (simp add: toFixed2_def hundredths_1536 showNat.simps digitChar_def)
lemma formatBytes_1536: "formatBytes 1536 = ''1.5 KB''"
  by (simp add: formatBytes_def unitIndex_1536 toFixed2_1536 parseFloatToString_def sizes_def)

text \<open>
  C7, as the code has it. Zero gives \<^verbatim>\<open>0 Bytes\<close>. A positive count below 1024^4 is
  scaled by the largest power of 1024 that is not above it, with the unit of that power
  among Bytes, KB, MB and GB; the scaled value is rounded to hundredths (a tie upwards)
  and printed without the zeros that end its fraction, without the point when nothing
  follows it, then a space and the unit. So 1536 gives \<^verbatim>\<open>1.5 KB\<close>.
\<close>

theorem formatBytes_rendering:
  "formatBytes 0 = ''0 Bytes''
   \<and> formatBytes 1536 = ''1.5 KB''
   \<and> (0 < bytes \<and> bytes < 1024 ^ 4
       \<longrightarrow> (\<exists>i q. i < 4 \<and> 1024 ^ i \<le> bytes \<and> bytes < 1024 ^ Suc i
              \<and> 2 * 1024 ^ i * q \<le> 200 * bytes + 1024 ^ i
              \<and> 200 * bytes + 1024 ^ i < 2 * 1024 ^ i * (q + 1)
              \<and> formatBytes bytes = twoDecimals q @ '' '' @ sizes ! i))"
proof (intro conjI impI)
  show "formatBytes 0 = ''0 Bytes''" by (simp add: formatBytes_def)
  show "formatBytes 1536 = ''1.5 KB''" by (rule formatBytes_1536)
next
  assume a: "0 < bytes \<and> bytes < 1024 ^ 4"
  define i where "i = unitIndex bytes"
  define q where "q = hundredths bytes i"
  have i4: "i < 4" unfolding i_def using a by (intro unitIndex_small) simp_all
  have b: "1024 ^ i \<le> bytes" "bytes < 1024 ^ Suc i"
    using unitIndex_bounds [of bytes] a unfolding i_def by simp_all
  have h: "2 * 1024 ^ i * q \<le> 200 * bytes + 1024 ^ i"
    "200 * bytes + 1024 ^ i < 2 * 1024 ^ i * (q + 1)"
    using hundredths_bounds [of i bytes] unfolding q_def by simp_all
  have il: "i < length sizes" using i4 by (simp add: sizes_def)
  have ne: "bytes \<noteq> 0" using a by simp
  have f: "formatBytes bytes = twoDecimals q @ '' '' @ sizes ! i"
    unfolding formatBytes_def Let_def i_def [symmetric] parseFloatToString_toFixed2
      q_def [symmetric]
    using il ne by simp
  show "\<exists>i q. i < 4 \<and> 1024 ^ i \<le> bytes \<and> bytes < 1024 ^ Suc i
              \<and> 2 * 1024 ^ i * q \<le> 200 * bytes + 1024 ^ i
              \<and> 200 * bytes + 1024 ^ i < 2 * 1024 ^ i * (q + 1)
              \<and> formatBytes bytes = twoDecimals q @ '' '' @ sizes ! i"
    by (intro exI [of _ i] exI [of _ q] conjI i4 b h f)
qed

theorem formatBytes_rendering_witness:
  "(0::nat) < 1234567 \<and> (1234567::nat) < 1024 ^ 4
   \<and> (\<exists>i q. i < 4 \<and> 1024 ^ i \<le> (1234567::nat) \<and> (1234567::nat) < 1024 ^ Suc i
         \<and> 2 * 1024 ^ i * q \<le> 200 * 1234567 + 1024 ^ i
         \<and> 200 * 1234567 + 1024 ^ i < 2 * 1024 ^ i * (q + 1)
         \<and> formatBytes 1234567 = twoDecimals q @ '' '' @ sizes ! i)"
proof -
  have h: "(0::nat) < 1234567 \<and> (1234567::nat) < 1024 ^ 4" by simp
  note inst = formatBytes_rendering [of 1234567, THEN conjunct2, THEN conjunct2, THEN mp, OF h]
  show ?thesis by (intro conjI h [THEN conjunct1] h [THEN conjunct2] inst)
qed

text \<open>
  C7 as the claim states it fails at its own example: \<^verbatim>\<open>parseFloat\<close> drops the zero
  that \<^verbatim>\<open>toFixed(2)\<close> wrote, so \<^verbatim>\<open>formatBytes(1536)\<close> is \<^verbatim>\<open>1.5 KB\<close> and not
  \<^verbatim>\<open>1.50 KB\<close>.
\<close>

theorem formatBytes_two_digits_counterexample:
  "toFixed2 1536 1 = ''1.50'' \<and> formatBytes 1536 = ''1.5 KB'' \<and> formatBytes 1536 \<noteq> ''1.50 KB''"
  using toFixed2_1536 by (simp add: formatBytes_1536)

end
